theory Spec2Isabelle
  imports Complex_Main "HOL-Library.Sublist" "HOL-Library.Multiset"
begin

section \<open>MDFTable: the data model\<close>

text \<open>
  A shallow embedding of \<^verbatim>\<open>modules/table/mdf-table.ts\<close> (class \<^verbatim>\<open>MDFTable\<close>).
  DOM elements are shared, mutable objects: \<^verbatim>\<open>this.rows\<close> and \<^verbatim>\<open>this.filteredRows\<close> are
  two arrays of references to the same \<^verbatim>\<open>tr\<close> elements. A row element is therefore a
  value with an identity (\<open>rid\<close>) and its immutable content; the mutable class list of
  a row (\<^verbatim>\<open>mdf-hidden\<close>, \<^verbatim>\<open>mdf-table__row--selected\<close>) lives in the table state, keyed by
  the identity. Text is ASCII (\<open>char\<close> is a byte).
\<close>

datatype error = FormatError | TypeError

record cell =
  textContent :: string
  format :: "string option"

datatype node = TextNode string | Cell cell

record row =
  rid :: nat
  nodes :: "node list"

fun cells :: "row \<Rightarrow> cell list" where
  "cells r = concat (map (\<lambda>n. case n of TextNode t \<Rightarrow> [] | Cell c \<Rightarrow> [c]) (nodes r))"

fun node_text :: "node \<Rightarrow> string" where
  "node_text (TextNode t) = t"
| "node_text (Cell c) = textContent c"

fun row_text :: "row \<Rightarrow> string" where
  "row_text r = concat (map node_text (nodes r))"

record header =
  sortable :: bool
  column_type :: "string option"
  headerActive :: bool
  classSortASC :: bool
  classSortDESC :: bool
  ariaSort :: "string option"

datatype jsnum = Num int | Infinity | NaN

datatype effect = Paginated int "row list" | Sorted nat string | ScrollIntoView

record checkbox =
  crow :: nat
  checked :: bool

record table =
  rows :: "row list"
  body :: "nat list"
  headers :: "header list"
  hidden :: "nat set"
  rowSelected :: "nat set"
  filteredRows :: "row list option"
  opt_paginate :: bool
  opt_scrollIntoView :: bool
  opt_savePreferences :: bool
  itemsPerPage :: int
  currPage :: int
  pages :: jsnum
  paginationStats :: "int \<times> int \<times> int"
  prevDisabled :: bool
  nextDisabled :: bool
  storedPageLimit :: "int option"
  sortASC :: bool
  checkboxes :: "checkbox list"
  headerInTable :: bool
  headerChecked :: bool
  headerIndeterminate :: bool
  selectedRows :: int
  isSorted :: bool
  effects :: "effect list"

subsection \<open>Element helpers (base module)\<close>

definition hide :: "row \<Rightarrow> nat set \<Rightarrow> nat set" where
  "hide r H = insert (rid r) H"

definition show_row :: "row \<Rightarrow> nat set \<Rightarrow> nat set" where
  "show_row r H = H - {rid r}"

definition visible_ids :: "table \<Rightarrow> nat set" where
  "visible_ids s = rid ` set (rows s) - hidden s"

definition ids :: "row list \<Rightarrow> nat set" where
  "ids rs = rid ` set rs"

subsection \<open>Strings\<close>

definition toUpperCase_char :: "char \<Rightarrow> char" where
  "toUpperCase_char c =
     (let n = (of_char c :: nat) in if 97 \<le> n \<and> n \<le> 122 then char_of (n - 32) else c)"

definition toUpperCase :: "string \<Rightarrow> string" where
  "toUpperCase s = map toUpperCase_char s"

definition str_includes :: "string \<Rightarrow> string \<Rightarrow> bool" where
  "str_includes hay needle = sublist needle hay"

section \<open>filter\<close>

text \<open>
  The optional argument \<^verbatim>\<open>column\<close> is \<open>None\<close> when it is left out. \<^verbatim>\<open>if (column)\<close> tests
  its truthiness: \<^verbatim>\<open>undefined\<close> and 0 are falsy. Reading \<^verbatim>\<open>textContent\<close> of a cell that
  does not exist throws a TypeError, before anything is assigned.
\<close>

definition falsy :: "nat option \<Rightarrow> bool" where
  "falsy column = (case column of None \<Rightarrow> True | Some c \<Rightarrow> c = 0)"

fun filter_callback :: "string \<Rightarrow> nat option \<Rightarrow> row \<Rightarrow> error + bool" where
  "filter_callback v column el =
     (if \<not> falsy column then
        (let c = the column in
         if c < length (cells el)
         then Inr (str_includes (toUpperCase (textContent (cells el ! c))) (toUpperCase v))
         else Inl TypeError)
      else Inr (str_includes (toUpperCase (row_text el)) (toUpperCase v)))"

fun array_filter :: "('a \<Rightarrow> error + bool) \<Rightarrow> 'a list \<Rightarrow> error + 'a list" where
  "array_filter p [] = Inr []"
| "array_filter p (x # xs) =
     (case p x of
        Inl e \<Rightarrow> Inl e
      | Inr b \<Rightarrow> (case array_filter p xs of
                    Inl e \<Rightarrow> Inl e
                  | Inr ys \<Rightarrow> Inr (if b then x # ys else ys)))"

definition filter_table :: "string \<Rightarrow> nat option \<Rightarrow> table \<Rightarrow> error + table" where
  "filter_table v column s =
     (case array_filter (filter_callback v column) (rows s) of
        Inl e \<Rightarrow> Inl e
      | Inr fr \<Rightarrow>
          Inr (s\<lparr>filteredRows := Some fr,
                 hidden := fold show_row fr (fold hide (rows s) (hidden s))\<rparr>))"

section \<open>Pagination\<close>

definition universe :: "table \<Rightarrow> row list" where
  "universe s = (case filteredRows s of None \<Rightarrow> rows s | Some fr \<Rightarrow> fr)"

definition js_slice :: "int \<Rightarrow> int \<Rightarrow> 'a list \<Rightarrow> 'a list" where
  "js_slice start fin xs =
     (let len = int (length xs);
          k = (if start < 0 then max (len + start) 0 else min start len);
          final = (if fin < 0 then max (len + fin) 0 else min fin len)
      in take (nat (final - k)) (drop (nat k) xs))"

definition js_slice_from :: "int \<Rightarrow> 'a list \<Rightarrow> 'a list" where
  "js_slice_from start xs = js_slice start (int (length xs)) xs"

definition ceil_div :: "int \<Rightarrow> int \<Rightarrow> jsnum" where
  "ceil_div n d =
     (if d = 0 then (if n = 0 then NaN else Infinity)
      else Num (- ((- n) div d)))"

fun gt_one :: "jsnum \<Rightarrow> bool" where
  "gt_one (Num p) = (1 < p)"
| "gt_one Infinity = True"
| "gt_one NaN = False"

text \<open>
  The pagination controls are modelled by whether they carry the class
  \<^verbatim>\<open>mdf-table__pagination-control--disabled\<close> (on a single page \<open>paginate\<close> also adds
  a class named \<^verbatim>\<open>click\<close>, which nothing reads), the stats text
  "\<open>a\<close>-\<open>b\<close> of \<open>n\<close>" by the triple \<open>(a, b, n)\<close>, the page limit kept in
  \<^verbatim>\<open>localStorage\<close> by \<open>storedPageLimit\<close>, and dispatched events and scrolling by the
  list \<open>effects\<close>. A page count is a number of the language: dividing by a limit of 0
  gives \<^verbatim>\<open>Infinity\<close> or \<^verbatim>\<open>NaN\<close>. The pagination elements (stats, previous and next
  control) are taken to exist, as they do in a table built with the pagination option.
\<close>

definition updatePageLimit :: "table \<Rightarrow> table" where
  "updatePageLimit s = s\<lparr>storedPageLimit := Some (itemsPerPage s)\<rparr>"

definition paginate :: "int \<Rightarrow> table \<Rightarrow> table" where
  "paginate limit s0 =
     (let s1 = s0\<lparr>itemsPerPage := limit\<rparr>;
          s2 = (if opt_savePreferences s1 then updatePageLimit s1 else s1);
          rowsToShow = universe s2;
          s3 = s2\<lparr>hidden := fold show_row rowsToShow (hidden s2), currPage := 1\<rparr>;
          rowsTotal = int (length (universe s3));
          rowsToHide = js_slice_from (itemsPerPage s3) (universe s3);
          s4 = s3\<lparr>pages := ceil_div rowsTotal (itemsPerPage s3)\<rparr>;
          s5 = (if gt_one (pages s4) then
                  (let paginateFrom = itemsPerPage s4 * (currPage s4 - 1);
                       paginateTo = paginateFrom + itemsPerPage s4
                   in s4\<lparr>paginationStats := (paginateFrom + 1, paginateTo, rowsTotal),
                         hidden := fold hide rowsToHide (hidden s4),
                         prevDisabled := True,
                         nextDisabled := False\<rparr>)
                else
                  s4\<lparr>hidden := fold show_row (universe s4) (hidden s4),
                      paginationStats := (1, rowsTotal, rowsTotal),
                      prevDisabled := True,
                      nextDisabled := True\<rparr>)
      in s5\<lparr>effects := effects s5 @ [Paginated (currPage s5) rowsToShow]\<rparr>)"

definition scroll_effect :: "table \<Rightarrow> effect list" where
  "scroll_effect s = (if opt_scrollIntoView s then [ScrollIntoView] else [])"

definition prevPage :: "table \<Rightarrow> table" where
  "prevPage s0 =
     (if currPage s0 < 2 then s0
      else
        (let s1 = s0\<lparr>currPage := currPage s0 - 1\<rparr>;
             paginateFrom = itemsPerPage s1 * (currPage s1 - 1);
             paginateTo = paginateFrom + itemsPerPage s1;
             rowsToShow = js_slice paginateFrom paginateTo (universe s1);
             s2 = s1\<lparr>hidden := fold show_row rowsToShow (fold hide (rows s1) (hidden s1))\<rparr>;
             rowsTotal = int (length (universe s2));
             s3 = s2\<lparr>paginationStats := (paginateFrom + 1, paginateTo, rowsTotal)\<rparr>;
             s4 = (if currPage s3 = 1 then s3\<lparr>prevDisabled := True\<rparr> else s3);
             s5 = s4\<lparr>nextDisabled := False\<rparr>
         in s5\<lparr>effects := effects s5 @ scroll_effect s5 @ [Paginated (currPage s5) rowsToShow]\<rparr>))"

definition nextPage :: "table \<Rightarrow> table" where
  "nextPage s0 =
     (if Num (currPage s0) = pages s0 then s0
      else
        (let s1 = s0\<lparr>currPage := currPage s0 + 1\<rparr>;
             paginateFrom = itemsPerPage s1 * (currPage s1 - 1);
             paginateTo = paginateFrom + itemsPerPage s1;
             rowsToShow = js_slice paginateFrom paginateTo (universe s1);
             s2 = s1\<lparr>hidden := fold show_row rowsToShow (fold hide (rows s1) (hidden s1))\<rparr>;
             rowsTotal = int (length (universe s2));
             s3 = s2\<lparr>paginationStats :=
                      (paginateFrom + 1,
                       (if Num (currPage s2) = pages s2 then rowsTotal else paginateTo),
                       rowsTotal)\<rparr>;
             s4 = (if Num (currPage s3) = pages s3 then s3\<lparr>nextDisabled := True\<rparr> else s3);
             s5 = s4\<lparr>prevDisabled := False\<rparr>
         in s5\<lparr>effects := effects s5 @ scroll_effect s5 @ [Paginated (currPage s5) rowsToShow]\<rparr>))"

section \<open>Sorting\<close>

subsection \<open>String to number, and the Date constructor\<close>

text \<open>
  \<^verbatim>\<open>date.split(/[.-/]/)\<close>: inside a character class \<^verbatim>\<open>.-/\<close> is the range from
  U+002E to U+002F, so the delimiters are the characters with code 46 and 47.
\<close>

definition is_delimiter :: "char \<Rightarrow> bool" where
  "is_delimiter c = (let n = (of_char c :: nat) in 46 \<le> n \<and> n \<le> 47)"

fun split_date :: "string \<Rightarrow> string list" where
  "split_date [] = [[]]"
| "split_date (c # cs) =
     (if is_delimiter c then [] # split_date cs
      else (case split_date cs of [] \<Rightarrow> [[c]] | t # ts \<Rightarrow> (c # t) # ts))"

definition token :: "string list \<Rightarrow> nat \<Rightarrow> string option" where
  "token ts i = (if i < length ts then Some (ts ! i) else None)"

definition is_whitespace :: "char \<Rightarrow> bool" where
  "is_whitespace c = ((of_char c :: nat) \<in> {9, 10, 11, 12, 13, 32})"

definition is_digit :: "char \<Rightarrow> bool" where
  "is_digit c = (let n = (of_char c :: nat) in 48 \<le> n \<and> n \<le> 57)"

definition trim :: "string \<Rightarrow> string" where
  "trim s = rev (dropWhile is_whitespace (rev (dropWhile is_whitespace s)))"

definition digits_value :: "string \<Rightarrow> int" where
  "digits_value ds = foldl (\<lambda>acc c. 10 * acc + (int (of_char c) - 48)) 0 ds"

text \<open>
  Unary plus on an array element: \<open>None\<close> as argument is \<^verbatim>\<open>undefined\<close> (an index past
  the end), \<open>None\<close> as result is \<^verbatim>\<open>NaN\<close>. Whitespace is trimmed, the empty string is 0,
  an optionally signed run of decimal digits is its value. The other numeric literals
  of the language (exponent, radix prefix, \<^verbatim>\<open>Infinity\<close>) do not occur in the dates
  considered here and are read as \<^verbatim>\<open>NaN\<close>.
\<close>

definition to_number :: "string option \<Rightarrow> int option" where
  "to_number v =
     (case v of
        None \<Rightarrow> None
      | Some s \<Rightarrow>
          (let t = trim s in
           if t = [] then Some 0
           else if list_all is_digit t then Some (digits_value t)
           else if hd t = CHR ''+'' \<and> tl t \<noteq> [] \<and> list_all is_digit (tl t)
             then Some (digits_value (tl t))
           else if hd t = CHR ''-'' \<and> tl t \<noteq> [] \<and> list_all is_digit (tl t)
             then Some (- digits_value (tl t))
           else None))"

definition DayFromYear :: "int \<Rightarrow> int" where
  "DayFromYear y =
     365 * (y - 1970) + (y - 1969) div 4 - (y - 1901) div 100 + (y - 1601) div 400"

definition InLeapYear :: "int \<Rightarrow> bool" where
  "InLeapYear y = (y mod 4 = 0 \<and> (y mod 100 \<noteq> 0 \<or> y mod 400 = 0))"

definition month_start :: "int \<Rightarrow> int \<Rightarrow> int" where
  "month_start y mn =
     [0, 31, 59, 90, 120, 151, 181, 212, 243, 273, 304, 334] ! nat mn
       + (if InLeapYear y \<and> 2 \<le> mn then 1 else 0)"

definition MakeDay :: "int \<Rightarrow> int \<Rightarrow> int \<Rightarrow> int" where
  "MakeDay year month date =
     (let ym = year + month div 12; mn = month mod 12
      in DayFromYear ym + month_start ym mn + date - 1)"

text \<open>
  A \<^verbatim>\<open>Date\<close> built from (year, month index, day) holds the time of local midnight of a
  day; it is modelled by the number of that day, which orders dates as the time value
  does. \<open>InvalidDate\<close> is the date whose time value is \<^verbatim>\<open>NaN\<close> (an argument is
  \<^verbatim>\<open>NaN\<close>, or the day is more than 100,000,000 days from the epoch).
\<close>

datatype js_date = Undefined | InvalidDate | Date int

definition new_Date :: "int option \<Rightarrow> int option \<Rightarrow> int option \<Rightarrow> js_date" where
  "new_Date year month date =
     (case (year, month, date) of
        (Some y, Some m, Some dt) \<Rightarrow>
          (let yr = (if 0 \<le> y \<and> y \<le> 99 then 1900 + y else y);
               day = MakeDay yr m dt
           in if \<bar>day\<bar> \<le> 100000000 then Date day else InvalidDate)
      | _ \<Rightarrow> InvalidDate)"

definition convertStringToDate :: "string \<Rightarrow> string \<Rightarrow> js_date" where
  "convertStringToDate date fmt =
     (let splitDate = split_date date;
          n = (\<lambda>i. to_number (token splitDate i))
      in if fmt = ''DMY'' then new_Date (n 2) (n 1) (n 0)
         else if fmt = ''MDY'' then new_Date (n 2) (n 0) (n 1)
         else if fmt = ''YMD'' then new_Date (n 0) (n 1) (n 2)
         else if fmt = ''YDM'' then new_Date (n 0) (n 2) (n 1)
         else Undefined)"

text \<open>\<^verbatim>\<open>s1 < s2\<close> on the results: both sides become numbers, and a comparison with
  \<^verbatim>\<open>NaN\<close> (from \<^verbatim>\<open>undefined\<close> or an invalid date) is false.\<close>

fun date_less :: "js_date \<Rightarrow> js_date \<Rightarrow> bool" where
  "date_less (Date a) (Date b) = (a < b)"
| "date_less _ _ = False"

subsection \<open>The comparators\<close>

definition date_compare :: "nat \<Rightarrow> bool \<Rightarrow> row \<Rightarrow> row \<Rightarrow> error + int" where
  "date_compare column asc a b =
     (if length (cells a) \<le> column then Inl TypeError
      else
        (let d1 = cells a ! column in
         case format d1 of
           None \<Rightarrow> Inl FormatError
         | Some f1 \<Rightarrow>
             (if length (cells b) \<le> column then Inl TypeError
              else
                (let d2 = cells b ! column in
                 case format d2 of
                   None \<Rightarrow> Inl FormatError
                 | Some f2 \<Rightarrow>
                     (let s1 = convertStringToDate (textContent d1) f1;
                          s2 = convertStringToDate (textContent d2) f2
                      in if asc
                         then Inr (if date_less s1 s2 then - 1 else if date_less s2 s1 then 1 else 0)
                         else Inr (if date_less s2 s1 then - 1 else if date_less s1 s2 then 1 else 0))))))"

text \<open>
  \<^verbatim>\<open>Intl.Collator(undefined, {numeric: true, sensitivity: 'base'}).compare\<close> belongs to
  the host and depends on its locale: it is the parameter \<open>collator\<close>.
\<close>

definition text_compare ::
  "(string \<Rightarrow> string \<Rightarrow> int) \<Rightarrow> nat \<Rightarrow> bool \<Rightarrow> row \<Rightarrow> row \<Rightarrow> error + int" where
  "text_compare collator column asc a b =
     (if length (cells a) \<le> column \<or> length (cells b) \<le> column then Inl TypeError
      else
        (let s1 = textContent (cells a ! column);
             s2 = textContent (cells b ! column)
         in if asc then Inr (collator s1 s2) else Inr (collator s2 s1)))"

subsection \<open>Array.prototype.sort\<close>

text \<open>
  \<^verbatim>\<open>Array.prototype.sort\<close> (ECMAScript, SortIndexedProperties): the elements are read
  into a list, the list is sorted by calls of the comparator, and the array is written
  only after the list is sorted; a comparator that throws ends the sort at once with
  that exception. Which pairs are compared is left to the engine; the model is a stable
  insertion sort, which compares a new element with the head of the sorted rest first.
\<close>

fun insert_by :: "('a \<Rightarrow> 'a \<Rightarrow> error + int) \<Rightarrow> 'a \<Rightarrow> 'a list \<Rightarrow> error + 'a list" where
  "insert_by cmp x [] = Inr [x]"
| "insert_by cmp x (y # ys) =
     (case cmp x y of
        Inl e \<Rightarrow> Inl e
      | Inr v \<Rightarrow>
          (if v \<le> 0 then Inr (x # y # ys)
           else (case insert_by cmp x ys of
                   Inl e \<Rightarrow> Inl e
                 | Inr zs \<Rightarrow> Inr (y # zs))))"

fun array_sort :: "('a \<Rightarrow> 'a \<Rightarrow> error + int) \<Rightarrow> 'a list \<Rightarrow> error + 'a list" where
  "array_sort cmp [] = Inr []"
| "array_sort cmp (x # xs) =
     (case array_sort cmp xs of
        Inl e \<Rightarrow> Inl e
      | Inr ys \<Rightarrow> insert_by cmp x ys)"

subsection \<open>sortColumn and sortOnClick\<close>

definition appendChild :: "nat \<Rightarrow> nat list \<Rightarrow> nat list" where
  "appendChild i b = removeAll i b @ [i]"

definition getSortingOrder :: "table \<Rightarrow> string" where
  "getSortingOrder s = (if sortASC s then ''ASC'' else ''DESC'')"

text \<open>A function that can throw after it has changed the state returns the state it
  leaves behind together with the exception, if any.\<close>

definition sortColumn ::
  "(string \<Rightarrow> string \<Rightarrow> int) \<Rightarrow> nat \<Rightarrow> table \<Rightarrow> table \<times> error option" where
  "sortColumn collator column s =
     (if length (headers s) \<le> column then (s, Some TypeError)
      else
        (let hdr = headers s ! column;
             cmp = (if column_type hdr = Some ''Date''
                    then date_compare column (sortASC s)
                    else text_compare collator column (sortASC s))
         in case array_sort cmp (rows s) of
              Inl e \<Rightarrow> (s, Some e)
            | Inr srt \<Rightarrow>
                (s\<lparr>rows := srt,
                   body := fold appendChild (map rid srt) (body s),
                   effects := effects s @ [Sorted column (getSortingOrder s)]\<rparr>, None)))"

definition clear_header :: "header \<Rightarrow> header" where
  "clear_header h =
     h\<lparr>headerActive := False, classSortASC := False, classSortDESC := False, ariaSort := None\<rparr>"

definition mark_header :: "bool \<Rightarrow> header \<Rightarrow> header" where
  "mark_header asc h =
     (if asc then h\<lparr>headerActive := True, classSortASC := True, ariaSort := Some ''ascending''\<rparr>
      else h\<lparr>headerActive := True, classSortDESC := True, ariaSort := Some ''descending''\<rparr>)"

text \<open>The first half of \<open>sortOnClick\<close>: the order is flipped, the sorting classes and
  \<^verbatim>\<open>aria-sort\<close> are removed from every header and set on the clicked one.\<close>

definition set_sort_header :: "nat \<Rightarrow> table \<Rightarrow> table" where
  "set_sort_header target s0 =
     (let s1 = s0\<lparr>sortASC := (if sortASC s0 then False else True)\<rparr>;
          s2 = s1\<lparr>headers := map clear_header (headers s1)\<rparr>
      in s2\<lparr>headers := (headers s2)[target := mark_header (sortASC s2) (headers s2 ! target)]\<rparr>)"

text \<open>\<open>target\<close> is the header cell that was clicked, by its index in \<^verbatim>\<open>this.headers\<close>;
  a click on anything else does not match the selector of a sortable header.\<close>

definition sortOnClick ::
  "(string \<Rightarrow> string \<Rightarrow> int) \<Rightarrow> nat \<Rightarrow> table \<Rightarrow> table \<times> error option" where
  "sortOnClick collator target s0 =
     (if target < length (headers s0) \<and> sortable (headers s0 ! target) then
        (let index = target;
             s3 = set_sort_header target s0
         in case sortColumn collator index s3 of
              (s4, Some e) \<Rightarrow> (s4, Some e)
            | (s4, None) \<Rightarrow>
                (if opt_paginate s4 then
                   (let rws = universe s4;
                        s5 = s4\<lparr>hidden := fold hide rws (hidden s4)\<rparr>;
                        paginateFrom = itemsPerPage s5 * (currPage s5 - 1);
                        paginateTo = paginateFrom + itemsPerPage s5;
                        rowsToShow = js_slice paginateFrom paginateTo rws
                    in (s5\<lparr>hidden := fold show_row rowsToShow (hidden s5)\<rparr>, None))
                 else (s4, None)))
      else (s0, None))"

section \<open>Row selection\<close>

text \<open>
  \<^verbatim>\<open>checkboxHeader\<close> is built from \<^verbatim>\<open>document.querySelector('.mdf-checkbox')\<close>: the
  first checkbox of the whole document. \<open>headerChecked\<close> and \<open>headerIndeterminate\<close> are
  the state of its input, and \<open>headerInTable\<close> tells whether that input lies in this
  table. It does, and is then the select-all box of the table, when no checkbox comes
  before the table in the document; when one does, \<^verbatim>\<open>checkboxHeader\<close> is that foreign
  checkbox and the select-all box of the table is one of \<open>checkboxes\<close>.

  \<open>checkboxes\<close> holds the checkbox inputs of the table other than the one of
  \<^verbatim>\<open>checkboxHeader\<close> (the loops of the handler skip that one); \<open>crow\<close> is the identity
  of the row element a checkbox lies in (a body row, or the header row, which is not
  among \<open>rows\<close>). The handler listens on the table: an \<^verbatim>\<open>input\<close> event reaches it
  after the host has toggled the checkbox that was clicked, and only when that
  checkbox lies in the table.
\<close>

datatype target = HeaderBox | RowBox nat | Other

definition set_all :: "bool \<Rightarrow> checkbox list \<Rightarrow> checkbox list" where
  "set_all b cbs = map (\<lambda>cb. cb\<lparr>checked := b\<rparr>) cbs"

definition addSelected :: "row \<Rightarrow> nat set \<Rightarrow> nat set" where
  "addSelected r S = insert (rid r) S"

definition removeSelected :: "row \<Rightarrow> nat set \<Rightarrow> nat set" where
  "removeSelected r S = S - {rid r}"

definition update_header_checkbox :: "table \<Rightarrow> table" where
  "update_header_checkbox s =
     (if selectedRows s \<le> 0 then s\<lparr>headerChecked := False, headerIndeterminate := False\<rparr>
      else if 0 < selectedRows s \<and> selectedRows s < int (length (rows s))
        then s\<lparr>headerChecked := False, headerIndeterminate := True\<rparr>
      else if selectedRows s = int (length (rows s))
        then s\<lparr>headerChecked := True, headerIndeterminate := False\<rparr>
      else s)"

fun checkboxEvents :: "target \<Rightarrow> table \<Rightarrow> table" where
  "checkboxEvents HeaderBox s0 =
     (if headerInTable s0 then
        (let s1 = s0\<lparr>headerIndeterminate := False\<rparr>
         in if headerChecked s1
            then s1\<lparr>checkboxes := set_all True (checkboxes s1),
                    rowSelected := fold addSelected (rows s1) (rowSelected s1),
                    selectedRows := int (length (rows s1))\<rparr>
            else s1\<lparr>checkboxes := set_all False (checkboxes s1),
                    rowSelected := fold removeSelected (rows s1) (rowSelected s1),
                    selectedRows := 0\<rparr>)
      else s0)"
| "checkboxEvents (RowBox i) s0 =
     (if i < length (checkboxes s0) then
        (let cb = checkboxes s0 ! i;
             s1 = (if checked cb
                   then s0\<lparr>selectedRows := selectedRows s0 + 1,
                           rowSelected := insert (crow cb) (rowSelected s0)\<rparr>
                   else s0\<lparr>selectedRows := selectedRows s0 - 1,
                           rowSelected := rowSelected s0 - {crow cb}\<rparr>)
         in update_header_checkbox s1)
      else s0)"
| "checkboxEvents Other s0 = s0"

fun host_toggle :: "target \<Rightarrow> table \<Rightarrow> table" where
  "host_toggle HeaderBox s = s\<lparr>headerChecked := \<not> headerChecked s, headerIndeterminate := False\<rparr>"
| "host_toggle (RowBox i) s =
     (if i < length (checkboxes s)
      then s\<lparr>checkboxes := (checkboxes s)[i := (checkboxes s ! i)\<lparr>checked := \<not> checked (checkboxes s ! i)\<rparr>]\<rparr>
      else s)"
| "host_toggle Other s = s"

definition input_event :: "target \<Rightarrow> table \<Rightarrow> table" where
  "input_event t s = checkboxEvents t (host_toggle t s)"

section \<open>The constructor\<close>

text \<open>
  The constructor reads the markup and the options. Of the markup the model keeps the
  body rows, the header cells, the checkbox inputs with their initial state, the
  classes the rows carry, whether the pagination element exists, and the page limit
  found in \<^verbatim>\<open>localStorage\<close>. The page fields are unset until \<open>paginate\<close> runs and are
  read by the pagination code only. The container and the table element are taken to
  exist; the options that only set attributes or classes (\<^verbatim>\<open>setAriaCount\<close>,
  \<^verbatim>\<open>truncateHeaders\<close>, the stored spacing) are left out. The count of selected rows
  starts at 0 whatever the checkboxes of the markup are.
\<close>

record options =
  o_sortOnLoad :: bool
  o_sortColumn :: nat
  o_order :: string
  o_paginate :: bool
  o_itemsPerPage :: int
  o_scrollIntoView :: bool
  o_savePreferences :: bool

record markup =
  m_rows :: "row list"
  m_headers :: "header list"
  m_checkboxes :: "checkbox list"
  m_headerInTable :: bool
  m_headerChecked :: bool
  m_headerIndeterminate :: bool
  m_hidden :: "nat set"
  m_selected :: "nat set"
  m_pagination :: bool
  m_storedPageLimit :: "int option"

definition defaults :: options where
  "defaults =
     \<lparr>o_sortOnLoad = False, o_sortColumn = 0, o_order = ''ASC'', o_paginate = False,
      o_itemsPerPage = 50, o_scrollIntoView = False, o_savePreferences = False\<rparr>"

definition initial_fields :: "markup \<Rightarrow> options \<Rightarrow> table" where
  "initial_fields m opts =
     \<lparr>rows = m_rows m, body = map rid (m_rows m), headers = m_headers m,
      hidden = m_hidden m, rowSelected = m_selected m, filteredRows = None,
      opt_paginate = o_paginate opts, opt_scrollIntoView = o_scrollIntoView opts,
      opt_savePreferences = o_savePreferences opts,
      itemsPerPage = 0, currPage = 0, pages = NaN, paginationStats = (0, 0, 0),
      prevDisabled = False, nextDisabled = False,
      storedPageLimit = m_storedPageLimit m,
      sortASC = (if o_order opts = ''ASC'' then True else False),
      checkboxes = m_checkboxes m,
      headerInTable = m_headerInTable m,
      headerChecked = m_headerChecked m, headerIndeterminate = m_headerIndeterminate m,
      selectedRows = 0, isSorted = False, effects = []\<rparr>"

definition construct ::
  "(string \<Rightarrow> string \<Rightarrow> int) \<Rightarrow> markup \<Rightarrow> options \<Rightarrow> table \<times> error option" where
  "construct collator m opts =
     (let s0 = initial_fields m opts;
          r1 = (if o_sortOnLoad opts then
                  (case sortColumn collator (o_sortColumn opts) s0 of
                     (s, Some e) \<Rightarrow> (s, Some e)
                   | (s, None) \<Rightarrow>
                       (s\<lparr>headers := (headers s)[o_sortColumn opts :=
                                         mark_header (sortASC s) (headers s ! o_sortColumn opts)],
                          isSorted := True\<rparr>, None))
                else (s0, None))
      in case r1 of
           (s1, Some e) \<Rightarrow> (s1, Some e)
         | (s1, None) \<Rightarrow>
             (if o_paginate opts then
                (if \<not> m_pagination m then (s1, None)
                 else
                   (let limit = (case m_storedPageLimit m of
                                   Some v \<Rightarrow> v
                                 | None \<Rightarrow> o_itemsPerPage opts)
                    in (paginate limit (s1\<lparr>itemsPerPage := limit\<rparr>), None)))
              else (s1, None)))"

section \<open>Example tables\<close>

definition mk_row :: "nat \<Rightarrow> (string \<times> string option) list \<Rightarrow> row" where
  "mk_row i cs = \<lparr>rid = i, nodes = map (\<lambda>(t, f). Cell \<lparr>textContent = t, format = f\<rparr>) cs\<rparr>"

definition plain_header :: "bool \<Rightarrow> string option \<Rightarrow> header" where
  "plain_header srt ty =
     \<lparr>sortable = srt, column_type = ty, headerActive = False, classSortASC = False,
      classSortDESC = False, ariaSort = None\<rparr>"

definition mk_markup :: "row list \<Rightarrow> header list \<Rightarrow> checkbox list \<Rightarrow> markup" where
  "mk_markup rs hs cbs =
     \<lparr>m_rows = rs, m_headers = hs, m_checkboxes = cbs, m_headerInTable = True,
      m_headerChecked = False,
      m_headerIndeterminate = False, m_hidden = {}, m_selected = {}, m_pagination = True,
      m_storedPageLimit = None\<rparr>"

definition no_collator :: "string \<Rightarrow> string \<Rightarrow> int" where
  "no_collator a b = 0"

text \<open>One row with the cells "a" and "b".\<close>

definition table_ab :: table where
  "table_ab =
     fst (construct no_collator
            (mk_markup [mk_row 0 [(''a'', None), (''b'', None)]]
               [plain_header False None, plain_header False None] [])
            defaults)"

text \<open>Seven rows of one cell, paginated three to a page by the constructor.\<close>

definition table_seven :: table where
  "table_seven =
     fst (construct no_collator
            (mk_markup (map (\<lambda>i. mk_row i [(''r'', None)]) [0, 1, 2, 3, 4, 5, 6])
               [plain_header True None] [])
            (defaults\<lparr>o_paginate := True, o_itemsPerPage := 3\<rparr>))"

text \<open>A collator for the examples: shorter text first.\<close>

definition length_collator :: "string \<Rightarrow> string \<Rightarrow> int" where
  "length_collator a b = int (length a) - int (length b)"

text \<open>Three rows "xa", "y", "xb" under a sortable header, paginated one to a page.\<close>

definition table_three :: table where
  "table_three =
     fst (construct length_collator
            (mk_markup [mk_row 0 [(''xa'', None)], mk_row 1 [(''y'', None)], mk_row 2 [(''xb'', None)]]
               [plain_header True None] [])
            (defaults\<lparr>o_paginate := True, o_itemsPerPage := 1\<rparr>))"

text \<open>Two rows of one date cell each, in a column of type Date, with the format MDY.\<close>

definition date_table :: "string \<Rightarrow> string \<Rightarrow> table" where
  "date_table d0 d1 =
     fst (construct no_collator
            (mk_markup [mk_row 0 [(d0, Some ''MDY'')], mk_row 1 [(d1, Some ''MDY'')]]
               [plain_header True (Some ''Date'')] [])
            defaults)"

text \<open>The same column where the second cell has no \<^verbatim>\<open>data-date-format\<close> attribute.\<close>

definition table_noformat :: table where
  "table_noformat =
     fst (construct no_collator
            (mk_markup [mk_row 0 [(''01/02/2020'', Some ''MDY'')], mk_row 1 [(''03/04/2019'', None)]]
               [plain_header True (Some ''Date'')] [])
            defaults)"

text \<open>One row whose checkbox is checked in the markup, and two rows with unchecked ones.\<close>

definition table_checked :: table where
  "table_checked =
     fst (construct no_collator
            (mk_markup [mk_row 0 [(''a'', None)]] [plain_header False None]
               [\<lparr>crow = 0, checked = True\<rparr>])
            defaults)"

definition table_boxes :: table where
  "table_boxes =
     fst (construct no_collator
            (mk_markup [mk_row 0 [(''a'', None)], mk_row 1 [(''b'', None)]] [plain_header False None]
               [\<lparr>crow = 0, checked = False\<rparr>, \<lparr>crow = 1, checked = False\<rparr>])
            defaults)"

text \<open>
  One body row; another checkbox comes first in the document, so that the select-all box
  of the table (in the header row, here row 9) and the box of the row are both among
  \<open>checkboxes\<close>.
\<close>

definition table_foreign :: table where
  "table_foreign =
     fst (construct no_collator
            ((mk_markup [mk_row 0 [(''a'', None)]] [plain_header False None]
                [\<lparr>crow = 9, checked = False\<rparr>, \<lparr>crow = 0, checked = False\<rparr>])
               \<lparr>m_headerInTable := False\<rparr>)
            defaults)"

text \<open>One body row that holds two checkboxes, and a table without body rows.\<close>

definition table_two_boxes :: table where
  "table_two_boxes =
     fst (construct no_collator
            (mk_markup [mk_row 0 [(''a'', None)]] [plain_header False None]
               [\<lparr>crow = 0, checked = False\<rparr>, \<lparr>crow = 0, checked = False\<rparr>])
            defaults)"

definition table_no_rows :: table where
  "table_no_rows =
     fst (construct no_collator (mk_markup [] [plain_header False None] []) defaults)"

text \<open>Three rows of which only the first two hold a checkbox.\<close>

definition table_few_boxes :: table where
  "table_few_boxes =
     fst (construct no_collator
            (mk_markup [mk_row 0 [(''a'', None)], mk_row 1 [(''b'', None)], mk_row 2 [(''c'', None)]]
               [plain_header False None]
               [\<lparr>crow = 0, checked = False\<rparr>, \<lparr>crow = 1, checked = False\<rparr>])
            defaults)"

text \<open>Four rows "x", "xx", "yyy", "xxxx" under a sortable header, paginated two to a
  page.\<close>

definition table_four :: table where
  "table_four =
     fst (construct length_collator
            (mk_markup [mk_row 0 [(''x'', None)], mk_row 1 [(''xx'', None)],
                        mk_row 2 [(''yyy'', None)], mk_row 3 [(''xxxx'', None)]]
               [plain_header True None] [])
            (defaults\<lparr>o_paginate := True, o_itemsPerPage := 2\<rparr>))"

text \<open>The state after \<^verbatim>\<open>filter("x")\<close>, \<^verbatim>\<open>paginate(2)\<close> and a click on the header.\<close>

definition table_four_sorted :: table where
  "table_four_sorted =
     fst (sortOnClick length_collator 0
            (paginate 2 (projr (filter_table ''x'' None table_four))))"

section \<open>Vocabulary of the properties\<close>

text \<open>The slice of page \<open>p\<close> (1-based) at \<open>l\<close> rows a page: from \<^verbatim>\<open>paginateFrom\<close> up to
  \<^verbatim>\<open>paginateTo\<close>, as \<open>prevPage\<close>, \<open>nextPage\<close> and \<open>sortOnClick\<close> compute them.\<close>

definition page_slice :: "int \<Rightarrow> int \<Rightarrow> 'a list \<Rightarrow> 'a list" where
  "page_slice l p xs = js_slice (l * (p - 1)) (l * (p - 1) + l) xs"

text \<open>The number of checked checkboxes of the rows.\<close>

definition checked_count :: "table \<Rightarrow> int" where
  "checked_count s = int (length (filter checked (checkboxes s)))"

text \<open>The display of the header checkbox follows the count of selected rows.\<close>

definition tri_state :: "table \<Rightarrow> bool" where
  "tri_state s =
     (if selectedRows s = 0 then \<not> headerChecked s \<and> \<not> headerIndeterminate s
      else if selectedRows s = int (length (rows s))
        then headerChecked s \<and> \<not> headerIndeterminate s
      else \<not> headerChecked s \<and> headerIndeterminate s)"

text \<open>
  What the selection handler keeps true once it holds: the count is the number of checked
  row checkboxes, or that number plus the number of rows without a checkbox (after the
  header checkbox has set the count to the number of rows).
\<close>

definition selection_invariant :: "table \<Rightarrow> bool" where
  "selection_invariant s =
     (headerInTable s \<and> rows s \<noteq> [] \<and> length (checkboxes s) \<le> length (rows s)
      \<and> (selectedRows s = checked_count s
           \<or> selectedRows s
               = checked_count s + (int (length (rows s)) - int (length (checkboxes s))))
      \<and> tri_state s)"

section \<open>Properties of filter\<close>

lemma fold_hide: "fold hide rs H = H \<union> ids rs"
  by (induction rs arbitrary: H) (auto simp: hide_def ids_def)

lemma fold_show_row: "fold show_row rs H = H - ids rs"
  by (induction rs arbitrary: H) (auto simp: show_row_def ids_def)

lemma array_filter_Inr:
  "array_filter p xs = Inr ys \<Longrightarrow> ys = filter (\<lambda>x. p x = Inr True) xs"
  by (induction xs arbitrary: ys) (auto split: sum.splits if_splits)

lemma array_filter_total0:
  "(\<And>x. x \<in> set xs \<Longrightarrow> \<exists>b. p x = Inr b) \<Longrightarrow> \<exists>ys. array_filter p xs = Inr ys"
  by (induction xs) (fastforce split: sum.splits)+

lemma array_filter_error:
  "array_filter p xs = Inl e \<Longrightarrow> \<exists>x \<in> set xs. p x = Inl e"
  by (induction xs) (fastforce split: sum.splits)+

lemma filter_callback_zero: "filter_callback v (Some 0) = filter_callback v None"
  by (rule ext) (simp add: falsy_def)

lemma filter_column_zero_general: "filter_table v (Some 0) s = filter_table v None s"
  by (simp add: filter_table_def filter_callback_zero)

lemma includes_empty: "str_includes hay (toUpperCase '''')"
  by (simp add: str_includes_def toUpperCase_def)

lemma filter_callback_empty: "falsy column \<Longrightarrow> filter_callback '''' column el = Inr True"
  using includes_empty by simp

lemma array_filter_all:
  "(\<And>x. x \<in> set xs \<Longrightarrow> p x = Inr True) \<Longrightarrow> array_filter p xs = Inr xs"
  by (induction xs) (fastforce split: sum.splits)+

lemma filter_empty_state:
  "filter_table '''' None s = Inr (s\<lparr>filteredRows := Some (rows s), hidden := hidden s - ids (rows s)\<rparr>)"
proof -
  have "array_filter (filter_callback '''' None) (rows s) = Inr (rows s)"
    by (rule array_filter_all) (simp add: filter_callback_empty falsy_def del: filter_callback.simps)
  then show ?thesis
    by (simp add: filter_table_def fold_hide fold_show_row Un_Diff)
qed

lemma filter_table_Inr:
  assumes "filter_table v column s = Inr s'"
  shows "s' = s\<lparr>filteredRows := Some (filter (\<lambda>r. filter_callback v column r = Inr True) (rows s)),
               hidden := (hidden s \<union> ids (rows s)) - ids (filter (\<lambda>r. filter_callback v column r = Inr True) (rows s))\<rparr>"
  using assms
  by (auto simp: filter_table_def fold_hide fold_show_row split: sum.splits dest: array_filter_Inr)

lemma js_slice_subseq: "subseq (js_slice a b xs) xs"
proof -
  have "sublist (js_slice a b xs) xs"
    unfolding js_slice_def Let_def
    by (meson sublist_drop sublist_order.order_trans sublist_take)
  then show ?thesis by (rule sublist_imp_subseq)
qed

lemma universe_simps [simp]:
  "universe (s\<lparr>hidden := H\<rparr>) = universe s"
  "universe (s\<lparr>itemsPerPage := l\<rparr>) = universe s"
  "universe (s\<lparr>currPage := c\<rparr>) = universe s"
  "universe (s\<lparr>pages := p\<rparr>) = universe s"
  "universe (s\<lparr>storedPageLimit := sl\<rparr>) = universe s"
  "universe (s\<lparr>paginationStats := st\<rparr>) = universe s"
  "universe (s\<lparr>prevDisabled := b\<rparr>) = universe s"
  "universe (s\<lparr>nextDisabled := b\<rparr>) = universe s"
  "universe (s\<lparr>effects := ef\<rparr>) = universe s"
  by (simp_all add: universe_def split: option.splits)

lemma pages_paginate: "pages (paginate limit s) = ceil_div (int (length (universe s))) limit"
  by (simp add: paginate_def Let_def updatePageLimit_def)

text \<open>
  Claim C3, as the code has it. \<^verbatim>\<open>filter("")\<close> matches every row and makes every row
  visible. It does not reset the stored row universe to none: \<open>filteredRows\<close> becomes
  the full row sequence (in its current order). A following \<open>paginate n\<close> computes the
  page count from \<open>length (rows s)\<close>, the count it computes when no filter is stored.
\<close>

theorem C3_filter_empty_keeps_universe:
  "\<exists>s'. filter_table '''' None s = Inr s' \<and> filteredRows s' = Some (rows s) \<and> rows s' = rows s
        \<and> visible_ids s' = ids (rows s)
        \<and> pages (paginate n s') = ceil_div (int (length (rows s))) n
        \<and> pages (paginate n (s\<lparr>filteredRows := None\<rparr>)) = ceil_div (int (length (rows s))) n"
  by (auto simp: filter_empty_state pages_paginate universe_def visible_ids_def ids_def)

text \<open>
  Claim C3 as stated fails: after \<^verbatim>\<open>filter("")\<close> on the one-row table the stored row
  universe is not none.
\<close>

theorem C3_counterexample:
  "\<not> isl (filter_table '''' None table_ab) \<and> filteredRows (projr (filter_table '''' None table_ab)) \<noteq> None"
  by code_simp

text \<open>
  Claim C5. The claim asks that \<^verbatim>\<open>filter(v, 0)\<close> match on the cell at index 0 only.
  On the row with the cells "a" and "b", \<^verbatim>\<open>filter("b", 0)\<close> does what \<^verbatim>\<open>filter("b")\<close>
  does and leaves the row visible, although its cell 0 does not contain "b": the test
  \<^verbatim>\<open>if (column)\<close> takes index 0 for a missing argument.
\<close>

theorem C5_column_zero_ignored:
  "filter_table ''b'' (Some 0) table_ab = filter_table ''b'' None table_ab
   \<and> visible_ids (projr (filter_table ''b'' (Some 0) table_ab)) = {0}
   \<and> \<not> str_includes (toUpperCase (textContent (cells (rows table_ab ! 0) ! 0))) (toUpperCase ''b'')"
  by code_simp

text \<open>
  \<open>filter\<close> returns whenever the column is falsy or every row has a cell at that index;
  what it stores in \<open>filteredRows\<close> is the subsequence of \<open>rows\<close> of the matching rows,
  in the order they have in \<open>rows\<close> at the call; \<open>rows\<close> and the order of the rows in
  the table body are unchanged; so, in the state \<open>filter\<close> returns, every slice of the
  filtered universe is a subsequence of \<open>rows\<close>.
\<close>

lemma filter_subsequence:
  "((falsy column \<or> (\<forall>r \<in> set (rows s). the column < length (cells r)))
      \<longrightarrow> (\<exists>s'. filter_table v column s = Inr s'))
   \<and> (\<forall>s'. filter_table v column s = Inr s' \<longrightarrow>
         (\<exists>fr. filteredRows s' = Some fr \<and> subseq fr (rows s)
               \<and> fr = filter (\<lambda>r. filter_callback v column r = Inr True) (rows s))
         \<and> rows s' = rows s \<and> body s' = body s
         \<and> subseq (js_slice a b (universe s')) (rows s'))"
proof (intro conjI impI allI)
  assume h: "falsy column \<or> (\<forall>r \<in> set (rows s). the column < length (cells r))"
  have "\<exists>ys. array_filter (filter_callback v column) (rows s) = Inr ys"
    by (rule array_filter_total0) (use h in auto)
  then show "\<exists>s'. filter_table v column s = Inr s'"
    by (auto simp: filter_table_def)
next
  fix s' assume h: "filter_table v column s = Inr s'"
  note eq = filter_table_Inr[OF h]
  show "\<exists>fr. filteredRows s' = Some fr \<and> subseq fr (rows s)
               \<and> fr = filter (\<lambda>r. filter_callback v column r = Inr True) (rows s)"
    by (subst eq) simp
  show "rows s' = rows s" by (subst eq) simp
  show "body s' = body s" by (subst eq) simp
  have "subseq (universe s') (rows s)" by (subst eq) (simp add: universe_def)
  moreover have "subseq (js_slice a b (universe s')) (universe s')" by (rule js_slice_subseq)
  ultimately have "subseq (js_slice a b (universe s')) (rows s)"
    using subseq_order.order_trans by blast
  then show "subseq (js_slice a b (universe s')) (rows s')" by (simp add: \<open>rows s' = rows s\<close>)
qed

section \<open>Properties of pagination\<close>

lemma ceil_div_pos: "0 < d \<Longrightarrow> ceil_div n d = Num \<lceil>real_of_int n / real_of_int d\<rceil>"
  by (simp add: ceil_div_def ceiling_divide_eq_div)

lemma js_slice_nonneg:
  "0 \<le> a \<Longrightarrow> a \<le> b \<Longrightarrow> js_slice a b xs = take (nat (b - a)) (drop (nat a) xs)"
  unfolding js_slice_def Let_def
  by (cases "a \<le> int (length xs)"; cases "b \<le> int (length xs)")
     (auto simp: min_def nat_diff_distrib)

lemma js_slice_from_nonneg: "0 \<le> a \<Longrightarrow> js_slice_from a xs = drop (nat a) xs"
  unfolding js_slice_from_def js_slice_def Let_def
  by (auto simp: min_def nat_diff_distrib)

lemma ids_append: "ids (xs @ ys) = ids xs \<union> ids ys"
  by (auto simp: ids_def)

lemma ids_take_drop:
  assumes "distinct (map rid xs)"
  shows "ids xs - ids (drop n xs) = ids (take n xs)"
proof -
  have "distinct (map rid (take n xs @ drop n xs))" using assms by simp
  then have "ids (take n xs) \<inter> ids (drop n xs) = {}"
    unfolding ids_def by (simp only: map_append distinct_append set_map) 
  moreover have "ids xs = ids (take n xs) \<union> ids (drop n xs)"
    by (metis append_take_drop_id ids_append)
  ultimately show ?thesis by auto
qed

lemma paginate_fields:
  "rows (paginate l s) = rows s"
  "filteredRows (paginate l s) = filteredRows s"
  "itemsPerPage (paginate l s) = l"
  "currPage (paginate l s) = 1"
  by (simp_all add: paginate_def Let_def updatePageLimit_def)

lemma universe_cong: "rows s' = rows s \<Longrightarrow> filteredRows s' = filteredRows s \<Longrightarrow> universe s' = universe s"
  by (simp add: universe_def split: option.splits)

lemma universe_paginate: "universe (paginate l s) = universe s"
  by (rule universe_cong) (simp_all add: paginate_fields)

lemma hidden_paginate:
  "0 \<le> l \<Longrightarrow> hidden (paginate l s) =
     (if gt_one (ceil_div (int (length (universe s))) l)
      then (hidden s - ids (universe s)) \<union> ids (drop (nat l) (universe s))
      else hidden s - ids (universe s))"
  by (simp add: paginate_def Let_def updatePageLimit_def fold_hide fold_show_row js_slice_from_nonneg)


lemma ceil_div_le_one:
  assumes "1 \<le> l" "\<not> gt_one (ceil_div n l)"
  shows "n \<le> l"
proof -
  have "\<lceil>real_of_int n / real_of_int l\<rceil> \<le> 1"
    using assms by (simp add: ceil_div_pos)
  then have "real_of_int n / real_of_int l \<le> 1"
    by (simp add: ceiling_le_iff)
  then have "real_of_int n \<le> real_of_int l"
    using assms(1) by (simp add: field_simps)
  then show ?thesis by simp
qed

lemma visible_paginate:
  assumes l: "1 \<le> l"
    and d: "distinct (map rid (universe s))"
    and sub: "ids (universe s) \<subseteq> ids (rows s)"
    and out: "ids (rows s) - ids (universe s) \<subseteq> hidden s"
  shows "visible_ids (paginate l s) = ids (take (nat l) (universe s))"
proof (cases "gt_one (ceil_div (int (length (universe s))) l)")
  case True
  have h: "hidden (paginate l s) = (hidden s - ids (universe s)) \<union> ids (drop (nat l) (universe s))"
    using hidden_paginate[of l s] l True by simp
  have "ids (universe s) - ids (drop (nat l) (universe s)) = ids (take (nat l) (universe s))"
    by (rule ids_take_drop[OF d])
  moreover have "ids (rows s) - hidden (paginate l s)
        = ids (universe s) - ids (drop (nat l) (universe s))"
    unfolding h using sub out by auto
  ultimately show ?thesis
    by (simp add: visible_ids_def paginate_fields ids_def)
next
  case False
  have h: "hidden (paginate l s) = hidden s - ids (universe s)"
    using hidden_paginate[of l s] l False by simp
  have "int (length (universe s)) \<le> l"
    by (rule ceil_div_le_one[OF l False])
  then have "take (nat l) (universe s) = universe s" by simp
  moreover have "ids (rows s) - hidden (paginate l s) = ids (universe s)"
    unfolding h using sub out by auto
  ultimately show ?thesis
    by (simp add: visible_ids_def paginate_fields ids_def)
qed

lemma nextPage_fields:
  assumes "Num (currPage s) \<noteq> pages s"
  shows "rows (nextPage s) = rows s"
    and "filteredRows (nextPage s) = filteredRows s"
    and "itemsPerPage (nextPage s) = itemsPerPage s"
    and "pages (nextPage s) = pages s"
    and "currPage (nextPage s) = currPage s + 1"
    and "hidden (nextPage s) =
           (hidden s \<union> ids (rows s))
             - ids (js_slice (itemsPerPage s * currPage s)
                      (itemsPerPage s * currPage s + itemsPerPage s) (universe s))"
  using assms
  by (simp_all add: nextPage_def Let_def fold_hide fold_show_row)

lemma universe_nextPage:
  "Num (currPage s) \<noteq> pages s \<Longrightarrow> universe (nextPage s) = universe s"
  by (rule universe_cong) (simp_all add: nextPage_fields)

lemma ids_js_slice_subset: "ids (js_slice a b xs) \<subseteq> ids xs"
  unfolding ids_def js_slice_def Let_def
  by (meson image_mono order_trans set_drop_subset set_take_subset)

lemma visible_nextPage:
  assumes "Num (currPage s) \<noteq> pages s" and "ids (universe s) \<subseteq> ids (rows s)"
  shows "visible_ids (nextPage s) =
           ids (js_slice (itemsPerPage s * currPage s)
                  (itemsPerPage s * currPage s + itemsPerPage s) (universe s))"
proof -
  let ?sl = "js_slice (itemsPerPage s * currPage s)
                  (itemsPerPage s * currPage s + itemsPerPage s) (universe s)"
  have "ids ?sl \<subseteq> ids (rows s)"
    using ids_js_slice_subset assms(2) by blast
  then have "ids (rows s) - ((hidden s \<union> ids (rows s)) - ids ?sl) = ids ?sl" by auto
  then show ?thesis
    by (simp add: visible_ids_def nextPage_fields[OF assms(1)] ids_def)
qed

lemma iterate_nextPage:
  assumes "pages t = Num P" and "currPage t = 1" and "int k + 1 \<le> P"
  shows "currPage ((nextPage ^^ k) t) = int k + 1
       \<and> pages ((nextPage ^^ k) t) = Num P
       \<and> itemsPerPage ((nextPage ^^ k) t) = itemsPerPage t
       \<and> rows ((nextPage ^^ k) t) = rows t
       \<and> filteredRows ((nextPage ^^ k) t) = filteredRows t"
  using assms
proof (induction k)
  case 0
  then show ?case by simp
next
  case (Suc k)
  then have ih: "currPage ((nextPage ^^ k) t) = int k + 1"
       "pages ((nextPage ^^ k) t) = Num P"
       "itemsPerPage ((nextPage ^^ k) t) = itemsPerPage t"
       "rows ((nextPage ^^ k) t) = rows t"
       "filteredRows ((nextPage ^^ k) t) = filteredRows t"
    by simp_all
  have ne: "Num (currPage ((nextPage ^^ k) t)) \<noteq> pages ((nextPage ^^ k) t)"
    using ih Suc.prems by simp
  show ?case
    by (simp add: nextPage_fields[OF ne] ih)
qed


lemma page_slice_nat:
  assumes "0 \<le> l" "1 \<le> k"
  shows "page_slice l (int k) xs = take (nat l) (drop (nat l * (k - 1)) xs)"
proof -
  have "0 \<le> l * (int k - 1)" using assms by simp
  moreover have "nat (l * (int k - 1)) = nat l * (k - 1)"
  proof -
    have "int k - 1 = int (k - 1)" using assms(2) by simp
    then show ?thesis using assms(1) by (simp only: nat_mult_distrib nat_int)
  qed
  ultimately show ?thesis
    using assms by (simp add: page_slice_def js_slice_nonneg)
qed

lemma chunks_cover:
  "(\<Union>k\<in>{1..P}. set (take m (drop (m * (k - 1)) xs))) = set (take (m * P) xs)"
proof (induction P)
  case 0
  then show ?case by simp
next
  case (Suc P)
  have "{1..Suc P} = insert (Suc P) {1..P}" by auto
  moreover have "set (take (m * Suc P) xs) = set (take (m * P) xs) \<union> set (take m (drop (m * P) xs))"
  proof -
    have "m * Suc P = m * P + m" by simp
    then show ?thesis by (simp only: take_add set_append)
  qed
  ultimately show ?case using Suc.IH by auto
qed

lemma chunks_disjoint:
  assumes "distinct (map rid xs)" "1 \<le> j" "j < k"
  shows "ids (take m (drop (m * (j - 1)) xs)) \<inter> ids (take m (drop (m * (k - 1)) xs)) = {}"
proof -
  let ?d = "drop (m * (j - 1)) xs"
  have "distinct (map rid ?d)" using assms(1) by (simp add: distinct_drop drop_map[symmetric])
  then have "distinct (map rid (take m ?d @ drop m ?d))" by (simp only: append_take_drop_id)
  then have dis: "ids (take m ?d) \<inter> ids (drop m ?d) = {}"
    unfolding ids_def by (simp only: map_append distinct_append set_map)
  have "m * (j - 1) + m \<le> m * (k - 1)"
  proof -
    have "(j - 1) + 1 \<le> k - 1" using assms by simp
    then have "m * ((j - 1) + 1) \<le> m * (k - 1)" by (rule mult_le_mono2)
    then show ?thesis by (simp add: algebra_simps)
  qed
  then have "set (drop (m * (k - 1)) xs) \<subseteq> set (drop (m * (j - 1) + m) xs)"
    by (rule set_drop_subset_set_drop)
  then have "set (take m (drop (m * (k - 1)) xs)) \<subseteq> set (drop m ?d)"
    using set_take_subset by (fastforce simp: add.commute)
  then have "ids (take m (drop (m * (k - 1)) xs)) \<subseteq> ids (drop m ?d)"
    unfolding ids_def by blast
  with dis show ?thesis by blast
qed

lemma ceiling_pages:
  assumes "1 \<le> l" "P = \<lceil>real n / real_of_int l\<rceil>"
  shows "0 \<le> P" and "int n \<le> l * P"
proof -
  have "0 \<le> real n / real_of_int l" using assms(1) by simp
  then show "0 \<le> P" unfolding assms(2) by (simp add: ceiling_le_iff[symmetric] le_ceiling_iff)
  have "real n / real_of_int l \<le> real_of_int P" unfolding assms(2) by (rule le_of_int_ceiling)
  then have "real n \<le> real_of_int P * real_of_int l"
    using assms(1) by (simp add: pos_divide_le_eq)
  then have "real_of_int (int n) \<le> real_of_int (l * P)" by (simp add: mult.commute)
  then show "int n \<le> l * P" by (simp only: of_int_le_iff)
qed


text \<open>The conditions on the row universe used below hold while no filter result is stored,
  and \<open>filter\<close> establishes them.\<close>

lemma universe_unfiltered:
  assumes "filteredRows s = None" "distinct (map rid (rows s))"
  shows "distinct (map rid (universe s)) \<and> ids (universe s) \<subseteq> ids (rows s)
       \<and> ids (rows s) - ids (universe s) \<subseteq> hidden s"
  using assms by (simp add: universe_def)

lemma universe_after_filter:
  assumes "filter_table v column s = Inr s'" "distinct (map rid (rows s))"
  shows "distinct (map rid (universe s')) \<and> ids (universe s') \<subseteq> ids (rows s')
       \<and> ids (rows s') - ids (universe s') \<subseteq> hidden s'"
proof -
  let ?fr = "filter (\<lambda>r. filter_callback v column r = Inr True) (rows s)"
  have u: "universe s' = ?fr" by (subst filter_table_Inr[OF assms(1)]) (simp add: universe_def)
  have r: "rows s' = rows s" by (subst filter_table_Inr[OF assms(1)]) simp
  have h: "hidden s' = (hidden s \<union> ids (rows s)) - ids ?fr"
    by (subst filter_table_Inr[OF assms(1)]) simp
  have "distinct (map rid ?fr)" using assms(2) by (rule distinct_map_filter)
  moreover have "ids ?fr \<subseteq> ids (rows s)" by (auto simp: ids_def)
  ultimately show ?thesis unfolding u r h by auto
qed

text \<open>
  Claim C8. Let the active row universe hold distinct rows of the table, with every row
  outside it hidden (as \<open>filter\<close> leaves them), and let \<open>1 \<le> l\<close>. After \<open>paginate l\<close>
  the page count is \<open>\<lceil>length universe / l\<rceil>\<close>; for each page \<open>k\<close> from 1 to the page
  count, the rows visible after \<open>paginate l\<close> and \<open>k - 1\<close> calls of \<open>nextPage\<close> are the
  rows of the slice of page \<open>k\<close>; the slices of two different pages share no row; and
  the slices of all the pages together are the universe.
\<close>

theorem C8_pagination_coverage:
  assumes l: "1 \<le> l"
    and d: "distinct (map rid (universe s))"
    and sub: "ids (universe s) \<subseteq> ids (rows s)"
    and out: "ids (rows s) - ids (universe s) \<subseteq> hidden s"
  shows "\<exists>P. P = \<lceil>real (length (universe s)) / real_of_int l\<rceil>
           \<and> pages (paginate l s) = Num P
           \<and> (\<forall>k. 1 \<le> k \<and> int k \<le> P \<longrightarrow>
                 visible_ids ((nextPage ^^ (k - 1)) (paginate l s))
                   = ids (page_slice l (int k) (universe s)))
           \<and> (\<forall>j k. 1 \<le> j \<and> j < k \<longrightarrow>
                 ids (page_slice l (int j) (universe s))
                   \<inter> ids (page_slice l (int k) (universe s)) = {})
           \<and> (\<Union>k\<in>{1..nat P}. ids (page_slice l (int k) (universe s))) = ids (universe s)"
proof -
  define U where "U = universe s"
  define P where "P = \<lceil>real (length U) / real_of_int l\<rceil>"
  define t where "t = paginate l s"
  have l0: "0 \<le> l" using l by simp
  have pg: "pages t = Num P"
    using l by (simp add: t_def P_def U_def pages_paginate ceil_div_pos)
  have cp: "currPage t = 1" by (simp add: t_def paginate_fields)
  have ut: "universe t = U" by (simp add: t_def U_def universe_paginate)
  have vis: "visible_ids ((nextPage ^^ (k - 1)) t) = ids (page_slice l (int k) U)"
    if k: "1 \<le> k" "int k \<le> P" for k
  proof (cases "k = 1")
    case True
    have "page_slice l 1 U = take (nat l) U"
      using l0 by (simp add: page_slice_def js_slice_nonneg)
    then show ?thesis
      using True visible_paginate[OF l d sub out] by (simp add: t_def U_def)
  next
    case False
    then obtain i where i: "k - 1 = Suc i" using k(1) by (cases "k - 1") auto
    then have ki: "int k = int i + 2" by linarith
    have bound: "int i + 1 \<le> P" using k(2) ki by simp
    let ?u = "(nextPage ^^ i) t"
    note it = iterate_nextPage[OF pg cp bound]
    have ne: "Num (currPage ?u) \<noteq> pages ?u" using it k(2) ki by simp
    have uu: "universe ?u = U"
      using universe_cong[of ?u t] it ut by simp
    have su: "ids (universe ?u) \<subseteq> ids (rows ?u)"
      using it uu sub by (simp add: U_def t_def paginate_fields)
    have "visible_ids (nextPage ?u) =
            ids (js_slice (itemsPerPage ?u * currPage ?u)
                   (itemsPerPage ?u * currPage ?u + itemsPerPage ?u) (universe ?u))"
      by (rule visible_nextPage[OF ne su])
    also have "\<dots> = ids (page_slice l (int k) U)"
      using it uu ki by (simp add: page_slice_def t_def paginate_fields add.commute)
    finally show ?thesis using i by simp
  qed
  have dis: "ids (page_slice l (int j) U) \<inter> ids (page_slice l (int k) U) = {}"
    if "1 \<le> j" "j < k" for j k
    using that chunks_disjoint[OF d[folded U_def] that] l0
    by (simp add: page_slice_nat)
  have cov: "(\<Union>k\<in>{1..nat P}. ids (page_slice l (int k) U)) = ids U"
  proof -
    have "(\<Union>k\<in>{1..nat P}. ids (page_slice l (int k) U))
            = rid ` (\<Union>k\<in>{1..nat P}. set (take (nat l) (drop (nat l * (k - 1)) U)))"
      using l0 by (auto simp: page_slice_nat ids_def)
    also have "\<dots> = rid ` set (take (nat l * nat P) U)"
      by (simp only: chunks_cover)
    also have "take (nat l * nat P) U = U"
    proof -
      have "0 \<le> P" "int (length U) \<le> l * P"
        using ceiling_pages[OF l P_def] by simp_all
      then have "length U \<le> nat (l * P)" by linarith
      also have "nat (l * P) = nat l * nat P"
        using l0 by (simp add: nat_mult_distrib)
      finally show ?thesis by simp
    qed
    finally show ?thesis by (simp add: ids_def)
  qed
  show ?thesis
    using pg vis dis cov unfolding P_def U_def t_def by blast
qed

text \<open>
  Claim C8 on seven rows at three rows a page: three pages, showing rows 0 to 2, rows 3
  to 5, and row 6.
\<close>

theorem C8_witness:
  "pages (paginate 3 table_seven) = Num 3
   \<and> visible_ids (paginate 3 table_seven) = {0, 1, 2}
   \<and> visible_ids (nextPage (paginate 3 table_seven)) = {3, 4, 5}
   \<and> visible_ids (nextPage (nextPage (paginate 3 table_seven))) = {6}"
proof -
  have h1: "(1::int) \<le> 3" by simp
  have h2: "distinct (map rid (universe table_seven))" by code_simp
  have h3: "ids (universe table_seven) \<subseteq> ids (rows table_seven)" by code_simp
  have h4: "ids (rows table_seven) - ids (universe table_seven) \<subseteq> hidden table_seven"
    by code_simp
  have len: "length (universe table_seven) = 7" by code_simp
  have p1: "ids (page_slice 3 (int 1) (universe table_seven)) = {0, 1, 2}" by code_simp
  have p2: "ids (page_slice 3 (int 2) (universe table_seven)) = {3, 4, 5}" by code_simp
  have p3: "ids (page_slice 3 (int 3) (universe table_seven)) = {6}" by code_simp
  have c: "\<lceil>real 7 / real_of_int 3\<rceil> = (3::int)" by (simp add: ceiling_eq_iff)
  from C8_pagination_coverage[OF h1 h2 h3 h4] len c
  have pg: "pages (paginate 3 table_seven) = Num 3"
    and vis: "\<And>k. 1 \<le> k \<Longrightarrow> int k \<le> 3 \<Longrightarrow>
          visible_ids ((nextPage ^^ (k - 1)) (paginate 3 table_seven))
            = ids (page_slice 3 (int k) (universe table_seven))"
    by auto
  from vis[of 1] p1 have v1: "visible_ids (paginate 3 table_seven) = {0, 1, 2}" by simp
  from vis[of 2] p2 have v2: "visible_ids (nextPage (paginate 3 table_seven)) = {3, 4, 5}" by simp
  have "(nextPage ^^ (3 - 1)) (paginate 3 table_seven) = nextPage (nextPage (paginate 3 table_seven))"
    by (simp add: numeral_2_eq_2)
  with vis[of 3] p3
  have v3: "visible_ids (nextPage (nextPage (paginate 3 table_seven))) = {6}" by simp
  from pg v1 v2 v3 show ?thesis by blast
qed

text \<open>
  Claim C9. \<open>prevPage\<close> on page 1 returns the state as it is, and so does \<open>nextPage\<close>
  when the current page is the last one: no field changes and no effect (no
  \<^verbatim>\<open>paginated\<close> event, no scrolling) is added.
\<close>

theorem C9_boundary_noop:
  "(currPage s = 1 \<longrightarrow> prevPage s = s) \<and> (Num (currPage s) = pages s \<longrightarrow> nextPage s = s)"
  by (simp add: prevPage_def nextPage_def)

text \<open>
  Claim C9 on seven rows at three rows a page: \<open>prevPage\<close> on page 1 and \<open>nextPage\<close> on
  page 3 change nothing, while \<open>nextPage\<close> on page 1 does.
\<close>

theorem C9_witness:
  "currPage table_seven = 1 \<and> prevPage table_seven = table_seven
   \<and> Num (currPage (nextPage (nextPage table_seven))) = pages (nextPage (nextPage table_seven))
   \<and> nextPage (nextPage (nextPage table_seven)) = nextPage (nextPage table_seven)
   \<and> nextPage table_seven \<noteq> table_seven"
proof -
  have a: "currPage table_seven = 1" by code_simp
  have b: "Num (currPage (nextPage (nextPage table_seven))) = pages (nextPage (nextPage table_seven))"
    by code_simp
  have c: "currPage (nextPage table_seven) \<noteq> currPage table_seven" by code_simp
  from c have c': "nextPage table_seven \<noteq> table_seven" by auto
  from C9_boundary_noop[of table_seven] a have "prevPage table_seven = table_seven" by blast
  moreover from C9_boundary_noop[of "nextPage (nextPage table_seven)"] b
  have "nextPage (nextPage (nextPage table_seven)) = nextPage (nextPage table_seven)" by blast
  ultimately show ?thesis using a b c' by blast
qed


section \<open>Properties of sorting\<close>

lemma insert_by_mset:
  "insert_by cmp x ys = Inr zs \<Longrightarrow> mset zs = add_mset x (mset ys)"
  by (induction ys arbitrary: zs) (auto split: sum.splits if_splits)

lemma array_sort_mset:
  "array_sort cmp xs = Inr ys \<Longrightarrow> mset ys = mset xs"
  by (induction xs arbitrary: ys) (auto split: sum.splits dest: insert_by_mset)

lemma insert_by_total:
  "(\<And>y. y \<in> set ys \<Longrightarrow> \<exists>v. cmp x y = Inr v) \<Longrightarrow> \<exists>zs. insert_by cmp x ys = Inr zs"
proof (induction ys)
  case Nil
  then show ?case by simp
next
  case (Cons y ys)
  then obtain v where v: "cmp x y = Inr v" by auto
  from Cons obtain zs where "insert_by cmp x ys = Inr zs" by auto
  with v show ?case by simp
qed

lemma array_sort_total:
  "(\<And>x y. x \<in> set xs \<Longrightarrow> y \<in> set xs \<Longrightarrow> \<exists>v. cmp x y = Inr v)
     \<Longrightarrow> \<exists>ys. array_sort cmp xs = Inr ys"
proof (induction xs)
  case Nil
  then show ?case by simp
next
  case (Cons x xs)
  then obtain ys where ys: "array_sort cmp xs = Inr ys" by auto
  then have "set ys = set xs" using array_sort_mset mset_eq_setD by blast
  then have "\<exists>zs. insert_by cmp x ys = Inr zs"
    using Cons.prems by (intro insert_by_total) auto
  with ys show ?case by simp
qed

lemma insert_by_error:
  "insert_by cmp x ys = Inl e \<Longrightarrow> \<exists>y \<in> set ys. cmp x y = Inl e"
  by (induction ys) (auto split: sum.splits if_splits)

lemma array_sort_error:
  "array_sort cmp xs = Inl e \<Longrightarrow> \<exists>x \<in> set xs. \<exists>y \<in> set xs. cmp x y = Inl e"
proof (induction xs)
  case Nil
  then show ?case by simp
next
  case (Cons x xs)
  show ?case
  proof (cases "array_sort cmp xs")
    case (Inl e')
    with Cons show ?thesis by auto
  next
    case (Inr ys)
    with Cons.prems have "insert_by cmp x ys = Inl e" by simp
    from insert_by_error[OF this] obtain y where "y \<in> set ys" "cmp x y = Inl e" by blast
    moreover have "set ys = set xs" using Inr array_sort_mset mset_eq_setD by blast
    ultimately show ?thesis by auto
  qed
qed

lemma array_sort_fails:
  assumes bad: "\<And>x y. x \<in> set xs \<Longrightarrow> y \<in> set xs \<Longrightarrow> bad x \<or> bad y \<Longrightarrow> cmp x y = Inl e"
    and only: "\<And>x y e'. x \<in> set xs \<Longrightarrow> y \<in> set xs \<Longrightarrow> cmp x y = Inl e' \<Longrightarrow> e' = e"
    and len: "2 \<le> length xs"
    and ex: "\<exists>x \<in> set xs. bad x"
  shows "array_sort cmp xs = Inl e"
  using assms
proof (induction xs)
  case Nil
  then show ?case by simp
next
  case (Cons x xs)
  show ?case
  proof (cases "array_sort cmp xs")
    case (Inl e')
    then obtain a b where "a \<in> set xs" "b \<in> set xs" "cmp a b = Inl e'"
      using array_sort_error by blast
    then have "e' = e" using Cons.prems(2)[of a b e'] by simp
    with Inl show ?thesis by simp
  next
    case (Inr ys)
    have sy: "set ys = set xs" using Inr array_sort_mset mset_eq_setD by blast
    have ly: "length ys = length xs" using Inr array_sort_mset mset_eq_length by blast
    from Cons.prems(3) ly obtain y ys' where ys: "ys = y # ys'" by (cases ys) auto
    have yin: "y \<in> set xs" using sy ys by auto
    have "bad x \<or> bad y"
    proof (rule ccontr)
      assume n: "\<not> (bad x \<or> bad y)"
      with Cons.prems(4) have ex': "\<exists>z \<in> set xs. bad z" by auto
      show False
      proof (cases "2 \<le> length xs")
        case True
        have "array_sort cmp xs = Inl e"
        proof (rule Cons.IH)
          show "cmp a b = Inl e" if "a \<in> set xs" "b \<in> set xs" "bad a \<or> bad b" for a b
            using that Cons.prems(1)[of a b] by simp
          show "e' = e" if "a \<in> set xs" "b \<in> set xs" "cmp a b = Inl e'" for a b e'
            using that Cons.prems(2)[of a b e'] by simp
          show "2 \<le> length xs" by (rule True)
          show "\<exists>z \<in> set xs. bad z" by (rule ex')
        qed
        with Inr show False by simp
      next
        case False
        then have "length xs < 2" by simp
        with ly ys have "Suc (length ys') < 2" by simp
        then have "ys' = []" by simp
        with sy ys have "set xs = {y}" by simp
        moreover from \<open>ys' = []\<close> ly ys have "length xs = 1" by simp
        then obtain a where "xs = [a]" by (cases xs) auto
        ultimately have "xs = [y]" by simp
        with ex' n show False by simp
      qed
    qed
    then have "cmp x y = Inl e" using Cons.prems(1) yin by simp
    with Inr ys show ?thesis by simp
  qed
qed

lemma date_compare_cases:
  assumes "column < length (cells a)" "column < length (cells b)"
  shows "(format (cells a ! column) = None \<or> format (cells b ! column) = None
            \<longrightarrow> date_compare column asc a b = Inl FormatError)
       \<and> (format (cells a ! column) \<noteq> None \<and> format (cells b ! column) \<noteq> None
            \<longrightarrow> (\<exists>v. date_compare column asc a b = Inr v))"
  using assms by (auto simp: date_compare_def Let_def split: option.splits)

lemma date_compare_error:
  "date_compare column asc a b = Inl e \<Longrightarrow> column < length (cells a)
     \<Longrightarrow> column < length (cells b) \<Longrightarrow> e = FormatError"
  by (auto simp: date_compare_def Let_def split: option.splits if_splits)


lemma sortColumn_date_error:
  assumes c: "column < length (headers s)"
    and ty: "column_type (headers s ! column) = Some ''Date''"
    and rng: "\<forall>r \<in> set (rows s). column < length (cells r)"
  shows "snd (sortColumn coll column s) =
           (if 2 \<le> length (rows s) \<and> (\<exists>r \<in> set (rows s). format (cells r ! column) = None)
            then Some FormatError else None)"
proof -
  let ?cmp = "date_compare column (sortASC s)"
  have sc: "sortColumn coll column s =
      (case array_sort ?cmp (rows s) of
         Inl e \<Rightarrow> (s, Some e)
       | Inr srt \<Rightarrow> (s\<lparr>rows := srt, body := fold appendChild (map rid srt) (body s),
                          effects := effects s @ [Sorted column (getSortingOrder s)]\<rparr>, None))"
    using c ty by (simp add: sortColumn_def)
  show ?thesis
  proof (cases "2 \<le> length (rows s) \<and> (\<exists>r \<in> set (rows s). format (cells r ! column) = None)")
    case True
    have "array_sort ?cmp (rows s) = Inl FormatError"
    proof (rule array_sort_fails[where bad = "\<lambda>r. format (cells r ! column) = None"])
      show "?cmp x y = Inl FormatError"
        if "x \<in> set (rows s)" "y \<in> set (rows s)"
           "format (cells x ! column) = None \<or> format (cells y ! column) = None" for x y
        using that rng date_compare_cases[of column x y "sortASC s"] by blast
      show "e' = FormatError"
        if "x \<in> set (rows s)" "y \<in> set (rows s)" "?cmp x y = Inl e'" for x y e'
        using that rng date_compare_error by blast
      show "2 \<le> length (rows s)" using True by simp
      show "\<exists>x \<in> set (rows s). format (cells x ! column) = None" using True by simp
    qed
    with True show ?thesis by (simp add: sc)
  next
    case False
    have "\<exists>ys. array_sort ?cmp (rows s) = Inr ys"
    proof (cases "2 \<le> length (rows s)")
      case True
      with False have all: "\<forall>r \<in> set (rows s). format (cells r ! column) \<noteq> None" by auto
      show ?thesis
      proof (rule array_sort_total)
        fix x y assume "x \<in> set (rows s)" "y \<in> set (rows s)"
        then show "\<exists>v. ?cmp x y = Inr v"
          using all rng date_compare_cases[of column x y "sortASC s"] by blast
      qed
    next
      case False
      then have "length (rows s) < 2" by simp
      then consider "rows s = []" | r where "rows s = [r]"
        by (cases "rows s"; cases "tl (rows s)") auto
      then show ?thesis by cases simp_all
    qed
    then obtain ys where "array_sort ?cmp (rows s) = Inr ys" by blast
    with False show ?thesis by (simp add: sc)
  qed
qed

lemma set_sort_header_fields:
  "rows (set_sort_header t s) = rows s"
  "body (set_sort_header t s) = body s"
  "hidden (set_sort_header t s) = hidden s"
  "filteredRows (set_sort_header t s) = filteredRows s"
  "opt_paginate (set_sort_header t s) = opt_paginate s"
  "itemsPerPage (set_sort_header t s) = itemsPerPage s"
  "currPage (set_sort_header t s) = currPage s"
  "length (headers (set_sort_header t s)) = length (headers s)"
  by (simp_all add: set_sort_header_def Let_def)

lemma set_sort_header_type:
  "t < length (headers s) \<Longrightarrow>
     column_type (headers (set_sort_header t s) ! t) = column_type (headers s ! t)"
  by (simp add: set_sort_header_def Let_def mark_header_def clear_header_def)

lemma sortOnClick_error:
  assumes "t < length (headers s)" "sortable (headers s ! t)"
  shows "snd (sortOnClick coll t s) = snd (sortColumn coll t (set_sort_header t s))"
  using assms
  by (auto simp: sortOnClick_def Let_def split: prod.splits option.splits)

lemma sortColumn_error_state: "sortColumn coll column s = (s', Some e) \<Longrightarrow> s' = s"
  by (auto simp: sortColumn_def Let_def split: if_splits sum.splits)

text \<open>
  Claim C7. For a column of type Date in which every row has a cell: \<open>sortColumn\<close>
  ends with the format error exactly when the table has at least two rows (so that
  cells are compared at all; with two rows or more every cell of the column takes part
  in a comparison) and some cell of the column has no date-format attribute; otherwise
  it ends without any error, in particular when every cell has the attribute; and the
  error \<open>sortColumn\<close> raises is the error its caller \<open>sortOnClick\<close> ends with.
\<close>

theorem C7_date_sort_raises_iff:
  assumes c: "column < length (headers s)"
    and ty: "column_type (headers s ! column) = Some ''Date''"
    and rng: "\<forall>r \<in> set (rows s). column < length (cells r)"
  shows "(snd (sortColumn coll column s) = Some FormatError
            \<longleftrightarrow> 2 \<le> length (rows s) \<and> (\<exists>r \<in> set (rows s). format (cells r ! column) = None))
       \<and> (snd (sortColumn coll column s) = None
            \<longleftrightarrow> \<not> (2 \<le> length (rows s) \<and> (\<exists>r \<in> set (rows s). format (cells r ! column) = None)))
       \<and> ((\<forall>r \<in> set (rows s). format (cells r ! column) \<noteq> None)
            \<longrightarrow> snd (sortColumn coll column s) = None)
       \<and> (sortable (headers s ! column)
            \<longrightarrow> snd (sortOnClick coll column s) = snd (sortColumn coll column s))"
proof -
  note e = sortColumn_date_error[OF c ty rng, of coll]
  have e': "snd (sortColumn coll column (set_sort_header column s)) = snd (sortColumn coll column s)"
    using sortColumn_date_error[of column "set_sort_header column s" coll] c ty rng e
    by (simp add: set_sort_header_fields set_sort_header_type)
  show ?thesis
    using e e' sortOnClick_error[OF c, of coll] by auto
qed

text \<open>
  Claim C7 on two tables of two rows: with a cell without the attribute the sort and the
  click end with the format error, with the attribute on both cells the sort ends
  without error.
\<close>

theorem C7_witness:
  "snd (sortColumn no_collator 0 table_noformat) = Some FormatError
   \<and> snd (sortOnClick no_collator 0 table_noformat) = Some FormatError
   \<and> snd (sortColumn no_collator 0 (date_table ''01/02/2020'' ''03/04/2019'')) = None"
proof -
  have a1: "0 < length (headers table_noformat)" by code_simp
  have a2: "column_type (headers table_noformat ! 0) = Some ''Date''" by code_simp
  have a3: "\<forall>r \<in> set (rows table_noformat). 0 < length (cells r)" by code_simp
  have a4: "2 \<le> length (rows table_noformat)
            \<and> (\<exists>r \<in> set (rows table_noformat). format (cells r ! 0) = None)" by code_simp
  have a5: "sortable (headers table_noformat ! 0)" by code_simp
  let ?t = "date_table ''01/02/2020'' ''03/04/2019''"
  have b1: "0 < length (headers ?t)" by code_simp
  have b2: "column_type (headers ?t ! 0) = Some ''Date''" by code_simp
  have b3: "\<forall>r \<in> set (rows ?t). 0 < length (cells r)" by code_simp
  have b4: "\<forall>r \<in> set (rows ?t). format (cells r ! 0) \<noteq> None" by code_simp
  from C7_date_sort_raises_iff[OF a1 a2 a3, of no_collator] a4 a5
  have "snd (sortColumn no_collator 0 table_noformat) = Some FormatError"
       "snd (sortOnClick no_collator 0 table_noformat) = Some FormatError"
    by simp_all
  moreover from C7_date_sort_raises_iff[OF b1 b2 b3, of no_collator] b4
  have "snd (sortColumn no_collator 0 ?t) = None" by blast
  ultimately show ?thesis by blast
qed

text \<open>
  Claim C6. When \<open>sortColumn\<close> ends with an error it leaves the state as it found it,
  so neither \<open>rows\<close> nor the order of the rows in the table body has changed; when the
  click handler ends with an error, \<open>rows\<close>, the body order, the hidden rows and the
  stored filter result are those before the click.
\<close>

theorem C6_failed_sort_keeps_order:
  "(\<forall>s' e. sortColumn coll column s = (s', Some e) \<longrightarrow> s' = s)
   \<and> (\<forall>s' e. sortOnClick coll target s = (s', Some e) \<longrightarrow>
         rows s' = rows s \<and> body s' = body s \<and> hidden s' = hidden s
         \<and> filteredRows s' = filteredRows s)"
proof -
  have A: "s' = s" if "sortColumn coll column s = (s', Some e)" for s' e
    using that by (rule sortColumn_error_state)
  have B: "rows s' = rows s \<and> body s' = body s \<and> hidden s' = hidden s
         \<and> filteredRows s' = filteredRows s"
    if h: "sortOnClick coll target s = (s', Some e)" for s' e
  proof -
    from h have "sortColumn coll target (set_sort_header target s) = (s', Some e)"
      by (auto simp: sortOnClick_def Let_def split: if_splits prod.splits option.splits)
    then have "s' = set_sort_header target s" by (rule sortColumn_error_state)
    then show ?thesis by (simp add: set_sort_header_fields)
  qed
  show ?thesis using A B by blast
qed

text \<open>
  Claim C6 on the table whose second date cell has no format: the sort fails and the
  rows stay in the order 0, 1, in \<open>rows\<close> and in the body.
\<close>

theorem C6_witness:
  "sortColumn no_collator 0 table_noformat = (table_noformat, Some FormatError)
   \<and> snd (sortOnClick no_collator 0 table_noformat) = Some FormatError
   \<and> map rid (rows (fst (sortOnClick no_collator 0 table_noformat))) = [0, 1]
   \<and> body (fst (sortOnClick no_collator 0 table_noformat)) = [0, 1]"
proof -
  have e1: "snd (sortColumn no_collator 0 table_noformat) = Some FormatError" by code_simp
  have e2: "snd (sortOnClick no_collator 0 table_noformat) = Some FormatError" by code_simp
  have r: "map rid (rows table_noformat) = [0, 1]" "body table_noformat = [0, 1]" by code_simp+
  from e1 have "sortColumn no_collator 0 table_noformat
                  = (fst (sortColumn no_collator 0 table_noformat), Some FormatError)"
    by (metis prod.collapse)
  with C6_failed_sort_keeps_order[of no_collator 0 table_noformat 0]
  have s1: "sortColumn no_collator 0 table_noformat = (table_noformat, Some FormatError)" by metis
  from e2 have "sortOnClick no_collator 0 table_noformat
                  = (fst (sortOnClick no_collator 0 table_noformat), Some FormatError)"
    by (metis prod.collapse)
  with C6_failed_sort_keeps_order[of no_collator 0 table_noformat 0]
  have "rows (fst (sortOnClick no_collator 0 table_noformat)) = rows table_noformat"
       "body (fst (sortOnClick no_collator 0 table_noformat)) = body table_noformat"
    by blast+
  with s1 e2 r show ?thesis by simp
qed

text \<open>
  Claim C2. The claim asks that dates written with "-" are split into three tokens and
  compared as calendar dates. "01-02-2020" is not split (the delimiter class holds "."
  and "/" only), its conversion is the invalid date, and sorting the rows "01-02-2020",
  "03-04-2019" ascending leaves them in that order, while the same dates written with
  "/" are put in the order 2019, 2020. The month token is moreover passed as a month
  index (counted from 0): February 1st 2020 is converted to an earlier day than January
  31st 2020.
\<close>

theorem C2_dash_dates_not_split:
  "split_date ''01-02-2020'' = [''01-02-2020'']
   \<and> convertStringToDate ''01-02-2020'' ''MDY'' = InvalidDate
   \<and> convertStringToDate ''03-04-2019'' ''MDY'' = InvalidDate
   \<and> map rid (rows (fst (sortColumn no_collator 0 (date_table ''01-02-2020'' ''03-04-2019'')))) = [0, 1]
   \<and> map rid (rows (fst (sortColumn no_collator 0 (date_table ''01/02/2020'' ''03/04/2019'')))) = [1, 0]
   \<and> date_less (convertStringToDate ''02/01/2020'' ''MDY'') (convertStringToDate ''01/31/2020'' ''MDY'')"
  by code_simp

section \<open>Visibility after filter and sort\<close>

lemma visible_after_filter:
  assumes "filter_table v column s = Inr s'"
  shows "visible_ids s' = ids (filter (\<lambda>r. filter_callback v column r = Inr True) (rows s))"
proof -
  let ?fr = "filter (\<lambda>r. filter_callback v column r = Inr True) (rows s)"
  have "ids ?fr \<subseteq> ids (rows s)" by (auto simp: ids_def)
  then have "ids (rows s) - ((hidden s \<union> ids (rows s)) - ids ?fr) = ids ?fr" by auto
  moreover have "rows s' = rows s" by (subst filter_table_Inr[OF assms]) simp
  moreover have "hidden s' = (hidden s \<union> ids (rows s)) - ids ?fr"
    by (subst filter_table_Inr[OF assms]) simp
  ultimately show ?thesis
    by (simp add: visible_ids_def ids_def)
qed

lemma sortColumn_success:
  assumes "sortColumn coll column s = (s', None)"
  shows "mset (rows s') = mset (rows s)"
    and "hidden s' = hidden s"
    and "filteredRows s' = filteredRows s"
    and "opt_paginate s' = opt_paginate s"
    and "itemsPerPage s' = itemsPerPage s"
    and "currPage s' = currPage s"
    and "pages s' = pages s"
  using assms
  by (auto simp: sortColumn_def Let_def split: if_splits sum.splits dest: array_sort_mset)

lemma sortOnClick_success:
  assumes t: "target < length (headers s)" "sortable (headers s ! target)"
    and pg: "opt_paginate s"
    and ok: "sortOnClick coll target s = (s', None)"
  shows "\<exists>s4. sortColumn coll target (set_sort_header target s) = (s4, None)
            \<and> s' = s4\<lparr>hidden := (hidden s4 \<union> ids (universe s4))
                         - ids (page_slice (itemsPerPage s4) (currPage s4) (universe s4))\<rparr>"
proof -
  obtain s4 e where sc: "sortColumn coll target (set_sort_header target s) = (s4, e)"
    by (cases "sortColumn coll target (set_sort_header target s)") auto
  with ok t have e: "e = None"
    by (auto simp: sortOnClick_def Let_def split: option.splits)
  have p4: "opt_paginate s4"
    using sortColumn_success(4)[OF sc[unfolded e]] pg by (simp add: set_sort_header_fields)
  from ok t sc e p4
  have "s' = s4\<lparr>hidden := (hidden s4 \<union> ids (universe s4))
                         - ids (page_slice (itemsPerPage s4) (currPage s4) (universe s4))\<rparr>"
    by (simp add: sortOnClick_def Let_def fold_hide fold_show_row page_slice_def)
  with sc e show ?thesis by blast
qed

text \<open>
  Claim C1 as stated fails for \<open>filter\<close>: on the three rows paginated one to a page,
  \<^verbatim>\<open>filter("x")\<close> leaves both matching rows 0 and 2 visible, while the page-1 slice of
  the new filtered universe holds row 0 only.
\<close>

theorem C1_counterexample:
  "opt_paginate table_three
   \<and> \<not> isl (filter_table ''x'' None table_three)
   \<and> visible_ids (projr (filter_table ''x'' None table_three)) = {0, 2}
   \<and> ids (page_slice (itemsPerPage (projr (filter_table ''x'' None table_three))) 1
           (universe (projr (filter_table ''x'' None table_three)))) = {0}"
  by code_simp

text \<open>
  Claim C1, as the code has it. After \<open>filter\<close> the visible rows are all the rows of
  the new filtered universe (the matching rows), whatever the pagination; the current
  page, the page count and the page size are left as they were. After a click on a
  sortable header of a paginated table with no filter result stored, the rows are a
  rearrangement of the rows before, and the visible rows are the rows of the current
  page's slice of the newly ordered rows.
\<close>

theorem C1_visible_after_filter_and_sort:
  "(\<forall>s'. filter_table v column s = Inr s' \<longrightarrow>
       visible_ids s' = ids (universe s')
       \<and> universe s' = filter (\<lambda>r. filter_callback v column r = Inr True) (rows s)
       \<and> currPage s' = currPage s \<and> pages s' = pages s \<and> itemsPerPage s' = itemsPerPage s)
   \<and> (\<forall>s'. opt_paginate s \<and> filteredRows s = None
            \<and> target < length (headers s) \<and> sortable (headers s ! target)
            \<and> sortOnClick coll target s = (s', None) \<longrightarrow>
       mset (rows s') = mset (rows s)
       \<and> filteredRows s' = None \<and> currPage s' = currPage s \<and> itemsPerPage s' = itemsPerPage s
       \<and> visible_ids s' = ids (page_slice (itemsPerPage s) (currPage s) (rows s')))"
proof -
  have A: "visible_ids s' = ids (universe s')
       \<and> universe s' = filter (\<lambda>r. filter_callback v column r = Inr True) (rows s)
       \<and> currPage s' = currPage s \<and> pages s' = pages s \<and> itemsPerPage s' = itemsPerPage s"
    if h: "filter_table v column s = Inr s'" for s'
  proof -
    have u: "universe s' = filter (\<lambda>r. filter_callback v column r = Inr True) (rows s)"
      by (subst filter_table_Inr[OF h]) (simp add: universe_def)
    have f: "currPage s' = currPage s" "pages s' = pages s" "itemsPerPage s' = itemsPerPage s"
      by ((subst filter_table_Inr[OF h], simp)+)
    show ?thesis using visible_after_filter[OF h] u f by simp
  qed
  have B: "mset (rows s') = mset (rows s)
       \<and> filteredRows s' = None \<and> currPage s' = currPage s \<and> itemsPerPage s' = itemsPerPage s
       \<and> visible_ids s' = ids (page_slice (itemsPerPage s) (currPage s) (rows s'))"
    if pg: "opt_paginate s" and nf: "filteredRows s = None"
      and t: "target < length (headers s)" "sortable (headers s ! target)"
      and ok: "sortOnClick coll target s = (s', None)" for s'
  proof -
    from sortOnClick_success[OF t pg ok] obtain s4 where
      sc: "sortColumn coll target (set_sort_header target s) = (s4, None)"
      and s': "s' = s4\<lparr>hidden := (hidden s4 \<union> ids (universe s4))
                         - ids (page_slice (itemsPerPage s4) (currPage s4) (universe s4))\<rparr>"
      by blast
    note f = sortColumn_success[OF sc, unfolded set_sort_header_fields]
    have u4: "universe s4 = rows s4" using f(3) nf by (simp add: universe_def)
    have sl: "ids (page_slice (itemsPerPage s) (currPage s) (rows s4)) \<subseteq> ids (rows s4)"
      unfolding page_slice_def by (rule ids_js_slice_subset)
    have "visible_ids s' = ids (rows s4) - ((hidden s4 \<union> ids (rows s4))
              - ids (page_slice (itemsPerPage s) (currPage s) (rows s4)))"
      unfolding s' using u4 f by (simp add: visible_ids_def ids_def)
    also have "\<dots> = ids (page_slice (itemsPerPage s) (currPage s) (rows s4))"
      using sl by auto
    finally have v: "visible_ids s' = ids (page_slice (itemsPerPage s) (currPage s) (rows s4))" .
    have r: "rows s' = rows s4" "filteredRows s' = filteredRows s4"
         "currPage s' = currPage s4" "itemsPerPage s' = itemsPerPage s4"
      unfolding s' by simp_all
    show ?thesis using v r f nf by simp
  qed
  show ?thesis using A B by blast
qed

text \<open>
  Claim C1 as amended, on the three rows paginated one to a page: after
  \<^verbatim>\<open>filter("x")\<close> rows 0 and 2 are visible; after a click on the header on page 2 the
  rows are in the order 0, 2, 1 and row 2, the second of them, is the visible one.
\<close>

theorem C1_witness:
  "visible_ids (projr (filter_table ''x'' None table_three)) = {0, 2}
   \<and> map rid (rows (fst (sortOnClick length_collator 0 (nextPage table_three)))) = [0, 2, 1]
   \<and> visible_ids (fst (sortOnClick length_collator 0 (nextPage table_three))) = {2}"
proof -
  let ?f = "filter_table ''x'' None table_three"
  let ?n = "nextPage table_three"
  let ?c = "sortOnClick length_collator 0 ?n"
  have f1: "?f = Inr (projr ?f)" by code_simp
  have f2: "ids (universe (projr ?f)) = {0, 2}" by code_simp
  have h1: "opt_paginate ?n" by code_simp
  have h2: "filteredRows ?n = None" by code_simp
  have h3: "0 < length (headers ?n)" by code_simp
  have h4: "sortable (headers ?n ! 0)" by code_simp
  have h5: "snd ?c = None" by code_simp
  have r: "map rid (rows (fst ?c)) = [0, 2, 1]" by code_simp
  have sl: "ids (page_slice (itemsPerPage ?n) (currPage ?n) (rows (fst ?c))) = {2}" by code_simp
  from h5 have h5': "?c = (fst ?c, None)" by (metis prod.collapse)
  from C1_visible_after_filter_and_sort[of "''x''" None table_three 0 length_collator] f1 f2
  have a: "visible_ids (projr ?f) = {0, 2}" by metis
  from C1_visible_after_filter_and_sort[of "''x''" None ?n 0 length_collator] h1 h2 h3 h4 h5'
  have "visible_ids (fst ?c) = ids (page_slice (itemsPerPage ?n) (currPage ?n) (rows (fst ?c)))"
    by blast
  with sl a r show ?thesis by simp
qed

section \<open>Pagination over a filtered universe after a sort\<close>

text \<open>
  Claim C10. The claim asks that the slices pagination takes over a filtered universe
  follow the current display order of the rows. On the four rows, \<^verbatim>\<open>filter("x")\<close> stores
  the rows 0, 1, 3, in the order of \<open>rows\<close> at that call. A click on the header then
  puts \<open>rows\<close> (and the table body) in the order 3, 2, 1, 0, but the stored filter
  result keeps the order 0, 1, 3: it is no longer a subsequence of \<open>rows\<close>. The click
  shows as page 1 the rows 0 and 1, which the table displays last, and \<open>nextPage\<close>
  shows as page 2 the row 3, which it displays first.
\<close>

theorem C10_slices_after_sort:
  "map rid (universe (projr (filter_table ''x'' None table_four))) = [0, 1, 3]
   \<and> map rid (rows table_four_sorted) = [3, 2, 1, 0]
   \<and> map rid (universe table_four_sorted) = [0, 1, 3]
   \<and> \<not> subseq (universe table_four_sorted) (rows table_four_sorted)
   \<and> currPage table_four_sorted = 1
   \<and> visible_ids table_four_sorted = {0, 1}
   \<and> visible_ids (nextPage table_four_sorted) = {3}"
  by code_simp

section \<open>Properties of the row selection\<close>

lemma count_update:
  "i < length xs \<Longrightarrow>
     int (length (filter P (xs[i := x])))
       = int (length (filter P xs)) + (if P x then 1 else 0) - (if P (xs ! i) then 1 else 0)"
proof (induction xs arbitrary: i)
  case Nil
  then show ?case by simp
next
  case (Cons y ys)
  show ?case
  proof (cases i)
    case 0
    then show ?thesis by simp
  next
    case (Suc j)
    with Cons.prems have "j < length ys" by simp
    from Cons.IH[OF this] Suc show ?thesis by (auto split: if_splits)
  qed
qed

lemma count_toggle:
  assumes "i < length cbs"
  shows "int (length (filter checked (cbs[i := (cbs ! i)\<lparr>checked := \<not> checked (cbs ! i)\<rparr>])))
       = int (length (filter checked cbs)) + (if checked (cbs ! i) then - 1 else 1)"
  by (simp only: count_update[OF assms]) simp

lemma length_set_all: "length (set_all b cbs) = length cbs"
  by (simp add: set_all_def)

lemma count_set_all:
  "length (filter checked (set_all True cbs)) = length cbs"
  "filter checked (set_all False cbs) = []"
  by (induction cbs) (simp_all add: set_all_def)

lemma checked_count_bounds: "0 \<le> checked_count s \<and> checked_count s \<le> int (length (checkboxes s))"
  by (simp add: checked_count_def)

lemma tri_state_update:
  "0 \<le> selectedRows s \<Longrightarrow> selectedRows s \<le> int (length (rows s)) \<Longrightarrow> rows s \<noteq> []
     \<Longrightarrow> tri_state (update_header_checkbox s)"
  by (auto simp: tri_state_def update_header_checkbox_def)

lemma update_header_checkbox_fields:
  "selectedRows (update_header_checkbox s) = selectedRows s"
  "checkboxes (update_header_checkbox s) = checkboxes s"
  "rows (update_header_checkbox s) = rows s"
  "headerInTable (update_header_checkbox s) = headerInTable s"
  by (simp_all add: update_header_checkbox_def)

lemma selection_bounds:
  assumes "selection_invariant s"
  shows "0 \<le> selectedRows s" and "selectedRows s \<le> int (length (rows s))"
proof -
  from assms have len: "int (length (checkboxes s)) \<le> int (length (rows s))"
    and d: "selectedRows s = checked_count s
          \<or> selectedRows s = checked_count s + (int (length (rows s)) - int (length (checkboxes s)))"
    by (simp_all add: selection_invariant_def)
  from d len checked_count_bounds[of s] show "0 \<le> selectedRows s" by auto
  from d len checked_count_bounds[of s] show "selectedRows s \<le> int (length (rows s))" by auto
qed

lemma selection_header:
  assumes "selection_invariant s"
  shows "selection_invariant (input_event HeaderBox s)"
proof -
  from assms have h: "headerInTable s" "rows s \<noteq> []" "length (checkboxes s) \<le> length (rows s)"
    by (simp_all add: selection_invariant_def)
  show ?thesis
  proof (cases "headerChecked s")
    case True
    then have "input_event HeaderBox s =
        s\<lparr>headerChecked := False, headerIndeterminate := False,
            checkboxes := set_all False (checkboxes s),
            rowSelected := fold removeSelected (rows s) (rowSelected s),
            selectedRows := 0\<rparr>"
      using h(1) by (simp add: input_event_def Let_def)
    then show ?thesis
      using h by (simp add: selection_invariant_def checked_count_def count_set_all length_set_all
            tri_state_def)
  next
    case False
    then have "input_event HeaderBox s =
        s\<lparr>headerChecked := True, headerIndeterminate := False,
            checkboxes := set_all True (checkboxes s),
            rowSelected := fold addSelected (rows s) (rowSelected s),
            selectedRows := int (length (rows s))\<rparr>"
      using h(1) by (simp add: input_event_def Let_def)
    then show ?thesis
      using h by (simp add: selection_invariant_def checked_count_def count_set_all length_set_all
            tri_state_def)
  qed
qed

lemma selection_row:
  assumes "selection_invariant s"
  shows "selection_invariant (input_event (RowBox i) s)"
proof (cases "i < length (checkboxes s)")
  case False
  with assms show ?thesis by (simp add: input_event_def)
next
  case True
  let ?cbs = "(checkboxes s)[i := (checkboxes s ! i)\<lparr>checked := \<not> checked (checkboxes s ! i)\<rparr>]"
  let ?h = "host_toggle (RowBox i) s"
  define s1 where "s1 = (if checked (?cbs ! i)
                   then ?h\<lparr>selectedRows := selectedRows ?h + 1,
                           rowSelected := insert (crow (?cbs ! i)) (rowSelected ?h)\<rparr>
                   else ?h\<lparr>selectedRows := selectedRows ?h - 1,
                           rowSelected := rowSelected ?h - {crow (?cbs ! i)}\<rparr>)"
  have ev: "input_event (RowBox i) s = update_header_checkbox s1"
    using True by (simp add: input_event_def Let_def s1_def)
  have cbs: "checkboxes s1 = ?cbs" using True by (simp add: s1_def)
  have cnt: "checked_count s1 = checked_count s + (if checked (checkboxes s ! i) then - 1 else 1)"
    by (simp only: checked_count_def cbs count_toggle[OF True])
  have sel: "selectedRows s1 = selectedRows s + (if checked (checkboxes s ! i) then - 1 else 1)"
    using True by (simp add: s1_def)
  have fld: "headerInTable s1 = headerInTable s" "rows s1 = rows s"
       "length (checkboxes s1) = length (checkboxes s)"
    using True by (simp_all add: s1_def)
  have pre: "headerInTable s1 \<and> rows s1 \<noteq> [] \<and> length (checkboxes s1) \<le> length (rows s1)
      \<and> (selectedRows s1 = checked_count s1
           \<or> selectedRows s1
               = checked_count s1 + (int (length (rows s1)) - int (length (checkboxes s1))))"
    using assms unfolding selection_invariant_def fld sel cnt by auto
  have b: "0 \<le> selectedRows s1" "selectedRows s1 \<le> int (length (rows s1))"
    using pre checked_count_bounds[of s1] by auto
  have t: "tri_state (update_header_checkbox s1)"
    using b pre by (intro tri_state_update) auto
  have cc: "checked_count (update_header_checkbox s1) = checked_count s1"
    by (simp add: checked_count_def update_header_checkbox_fields)
  show ?thesis
    unfolding ev selection_invariant_def
    using pre t by (simp add: update_header_checkbox_fields cc)
qed

lemma selection_step: "selection_invariant s \<Longrightarrow> selection_invariant (input_event t s)"
  by (cases t) (simp_all add: selection_header selection_row, simp add: input_event_def)

lemma selection_fold: "selection_invariant s \<Longrightarrow> selection_invariant (fold input_event evs s)"
  by (induction evs arbitrary: s) (simp_all add: selection_step)

lemma sortColumn_selection:
  "selectedRows (fst (sortColumn coll c s)) = selectedRows s"
  "checkboxes (fst (sortColumn coll c s)) = checkboxes s"
  by (simp_all add: sortColumn_def Let_def split: sum.splits)

lemma paginate_selection:
  "selectedRows (paginate l s) = selectedRows s"
  "checkboxes (paginate l s) = checkboxes s"
  by (simp_all add: paginate_def Let_def updatePageLimit_def)

lemma construct_selection:
  "selectedRows (fst (construct coll m opts)) = 0
   \<and> checkboxes (fst (construct coll m opts)) = m_checkboxes m"
proof -
  let ?s0 = "initial_fields m opts"
  have i: "selectedRows ?s0 = 0" "checkboxes ?s0 = m_checkboxes m"
    by (simp_all add: initial_fields_def)
  obtain s e where sc: "sortColumn coll (o_sortColumn opts) ?s0 = (s, e)"
    by (cases "sortColumn coll (o_sortColumn opts) ?s0") auto
  have f: "selectedRows s = 0" "checkboxes s = m_checkboxes m"
    using sortColumn_selection[of coll "o_sortColumn opts" ?s0] sc i by simp_all
  show ?thesis
    unfolding construct_def Let_def
    by (cases e) (simp_all add: sc i f paginate_selection)
qed

text \<open>
  Claim C4 as stated fails, in four ways. A row checkbox that is checked in the markup:
  unchecking it makes the count \<open>- 1\<close>. A checkbox that comes before the table in the
  document: it is taken for the header checkbox, the select-all box of the table is
  counted like a row's, and checking it and the box of the only row makes the count 2
  on one row. Two checkboxes in the only row: checking both makes the count 2 on one
  row. No rows at all: checking the header checkbox leaves it checked with the count at
  0.
\<close>

theorem C4_counterexample:
  "selectedRows (input_event (RowBox 0) table_checked) = - 1
   \<and> length (rows (input_event (RowBox 0) table_checked)) = 1
   \<and> selectedRows (fold input_event [RowBox 0, RowBox 1] table_foreign) = 2
   \<and> length (rows (fold input_event [RowBox 0, RowBox 1] table_foreign)) = 1
   \<and> selectedRows (fold input_event [RowBox 0, RowBox 1] table_two_boxes) = 2
   \<and> length (rows (fold input_event [RowBox 0, RowBox 1] table_two_boxes)) = 1
   \<and> selectedRows (input_event HeaderBox table_no_rows) = 0
   \<and> headerChecked (input_event HeaderBox table_no_rows)"
  by code_simp

text \<open>
  Claim C4, as the code has it. Take a table whose header checkbox is the first checkbox
  of the document (so that it is \<^verbatim>\<open>checkboxHeader\<close>), with at least one row and at most
  as many row checkboxes as rows, in which every checkbox is unchecked and the header
  checkbox is not indeterminate; the constructor sets the count to 0. After any
  sequence of clicks on the header checkbox and on row checkboxes the count of selected
  rows lies between 0 and the number of rows, and the header checkbox shows the
  tri-state rule: unchecked for 0, checked for all, indeterminate (and unchecked)
  otherwise.
\<close>

theorem C4_selection_invariant:
  assumes "headerInTable s"
    and "\<forall>cb \<in> set (checkboxes s). \<not> checked cb"
    and "selectedRows s = 0"
    and "\<not> headerChecked s" and "\<not> headerIndeterminate s"
    and "length (checkboxes s) \<le> length (rows s)"
    and "rows s \<noteq> []"
  shows "0 \<le> selectedRows (fold input_event evs s)
       \<and> selectedRows (fold input_event evs s) \<le> int (length (rows (fold input_event evs s)))
       \<and> tri_state (fold input_event evs s)"
proof -
  have "filter checked (checkboxes s) = []" using assms(2) by (simp add: filter_empty_conv)
  then have "selection_invariant s"
    using assms by (simp add: selection_invariant_def checked_count_def tri_state_def)
  then have i: "selection_invariant (fold input_event evs s)" by (rule selection_fold)
  from selection_bounds[OF i] i show ?thesis
    by (simp add: selection_invariant_def)
qed

text \<open>
  Claim C4 as amended. On two rows with a checkbox each: after checking both the count
  is 2 and the header is checked; after unchecking the first again the count is 1 and
  the header is indeterminate. On three rows of which two hold a checkbox: after the
  header checkbox is checked and the first row unchecked, the count is 2 and the header
  is indeterminate.
\<close>

theorem C4_witness:
  "tri_state (fold input_event [RowBox 0, RowBox 1] table_boxes)
   \<and> selectedRows (fold input_event [RowBox 0, RowBox 1] table_boxes) = 2
   \<and> headerChecked (fold input_event [RowBox 0, RowBox 1] table_boxes)
   \<and> tri_state (fold input_event [RowBox 0, RowBox 1, RowBox 0] table_boxes)
   \<and> selectedRows (fold input_event [RowBox 0, RowBox 1, RowBox 0] table_boxes) = 1
   \<and> headerIndeterminate (fold input_event [RowBox 0, RowBox 1, RowBox 0] table_boxes)
   \<and> tri_state (fold input_event [HeaderBox, RowBox 0] table_few_boxes)
   \<and> selectedRows (fold input_event [HeaderBox, RowBox 0] table_few_boxes) = 2
   \<and> headerIndeterminate (fold input_event [HeaderBox, RowBox 0] table_few_boxes)"
proof -
  have a: "headerInTable table_boxes" by code_simp
  have b: "\<forall>cb \<in> set (checkboxes table_boxes). \<not> checked cb" by code_simp
  have c: "selectedRows table_boxes = 0" by code_simp
  have d: "\<not> headerChecked table_boxes" "\<not> headerIndeterminate table_boxes" by code_simp+
  have e: "length (checkboxes table_boxes) \<le> length (rows table_boxes)" by code_simp
  have f: "rows table_boxes \<noteq> []" by code_simp
  have a': "headerInTable table_few_boxes" by code_simp
  have b': "\<forall>cb \<in> set (checkboxes table_few_boxes). \<not> checked cb" by code_simp
  have c': "selectedRows table_few_boxes = 0" by code_simp
  have d': "\<not> headerChecked table_few_boxes" "\<not> headerIndeterminate table_few_boxes" by code_simp+
  have e': "length (checkboxes table_few_boxes) \<le> length (rows table_few_boxes)" by code_simp
  have f': "rows table_few_boxes \<noteq> []" by code_simp
  let ?w = "fold input_event [RowBox 0, RowBox 1] table_boxes"
  let ?u = "fold input_event [RowBox 0, RowBox 1, RowBox 0] table_boxes"
  let ?v = "fold input_event [HeaderBox, RowBox 0] table_few_boxes"
  have n: "selectedRows ?w = 2" "length (rows ?w) = 2"
          "selectedRows ?u = 1" "length (rows ?u) = 2"
          "selectedRows ?v = 2" "length (rows ?v) = 3" by code_simp+
  from C4_selection_invariant[OF a b c d e f, of "[RowBox 0, RowBox 1]"]
  have w: "tri_state ?w" by blast
  from C4_selection_invariant[OF a b c d e f, of "[RowBox 0, RowBox 1, RowBox 0]"]
  have u: "tri_state ?u" by blast
  from C4_selection_invariant[OF a' b' c' d' e' f', of "[HeaderBox, RowBox 0]"]
  have v: "tri_state ?v" by blast
  from w n have w': "headerChecked ?w" by (simp add: tri_state_def)
  from u n have u': "headerIndeterminate ?u" by (simp add: tri_state_def)
  from v n have v': "headerIndeterminate ?v" by (simp add: tri_state_def)
  from w u v w' u' v' n show ?thesis by blast
qed

end
